theory Spec2Isabelle
  imports Complex_Main "HOL-Library.AList"
begin

section \<open>Standard bars: tick, volume and dollar bar sampling\<close>

text \<open>
  A shallow embedding of \<^verbatim>\<open>finance_ml/data_structures/standard_bars.py\<close>.

  Numbers are exact rationals: the rounding error of the floating-point
  arithmetic that NumPy performs is not modelled, except in the loop of the group
  assigner, which is given a second time with the subtraction of float64 numbers. A cell
  of the column \<^verbatim>\<open>group\<close> is a \<open>nat option\<close>, \<open>None\<close> standing for NaN.
\<close>

subsection \<open>Data frames\<close>

text \<open>
  A data frame is its columns, in order, each under its name. All the columns that the
  sampler reads are numeric; the column \<^verbatim>\<open>date_time\<close> holds the time stamp in days
  since Monday, 5 January 1970 (the fraction is the time of day), so that day \<open>d\<close> is a
  Saturday or a Sunday when \<open>d mod 7\<close> is 5 or 6.
\<close>

type_synonym column = "rat list"
type_synonym frame = "(string \<times> column) list"

datatype error = AssertionError string | KeyError string

definition columns :: "frame \<Rightarrow> string list" where
  "columns fr = map fst fr"

text \<open>\<^verbatim>\<open>df[c]\<close>: the column named \<open>c\<close>, KeyError when there is none.\<close>

definition get_col :: "frame \<Rightarrow> string \<Rightarrow> error + column" where
  "get_col fr c = (case map_of fr c of None \<Rightarrow> Inl (KeyError c) | Some v \<Rightarrow> Inr v)"

text \<open>\<^verbatim>\<open>df[c] = v\<close>: replaces the column in place, or appends it as the last one.\<close>

definition set_col :: "frame \<Rightarrow> string \<Rightarrow> column \<Rightarrow> frame" where
  "set_col fr c v = AList.update c v fr"

text \<open>\<^verbatim>\<open>df.shape[0]\<close>: the number of rows.\<close>

definition nrows :: "frame \<Rightarrow> nat" where
  "nrows fr = (case fr of [] \<Rightarrow> 0 | cv # _ \<Rightarrow> length (snd cv))"

text \<open>The frames pandas builds: every column has one cell per row.\<close>

definition wf_frame :: "frame \<Rightarrow> bool" where
  "wf_frame fr = list_all (\<lambda>cv. length (snd cv) = nrows fr) fr"

text \<open>\<^verbatim>\<open>s.cumsum()\<close>\<close>

fun cumsum_from :: "rat \<Rightarrow> column \<Rightarrow> column" where
  "cumsum_from acc [] = []"
| "cumsum_from acc (x # xs) = (acc + x) # cumsum_from (acc + x) xs"

definition cumsum :: "column \<Rightarrow> column" where
  "cumsum xs = cumsum_from 0 xs"

subsection \<open>The objects of a call and what it prints\<close>

text \<open>
  The frames live in a store, a variable holds the address of its frame, and
  \<^verbatim>\<open>print\<close> appends to the standard output; a printed NaN is \<open>None\<close>.
\<close>

record world =
  heap :: "frame list"
  stdout :: "rat option list"

text \<open>\<^verbatim>\<open>df.copy(deep=True)\<close>: a new object with the same contents.\<close>

definition copy_deep :: "nat \<Rightarrow> world \<Rightarrow> nat \<times> world" where
  "copy_deep df w = (length (heap w), w\<lparr>heap := heap w @ [heap w ! df]\<rparr>)"

text \<open>\<^verbatim>\<open>df[c] = v\<close> on the object at address \<open>df\<close>.\<close>

definition store_col :: "nat \<Rightarrow> string \<Rightarrow> column \<Rightarrow> world \<Rightarrow> world" where
  "store_col df c v w = w\<lparr>heap := (heap w)[df := set_col (heap w ! df) c v]\<rparr>"

definition print :: "rat option \<Rightarrow> world \<Rightarrow> world" where
  "print th w = w\<lparr>stdout := stdout w @ [th]\<rparr>"

subsection \<open>The automatic threshold\<close>

text \<open>
  \<^verbatim>\<open>np.round(x, decimals)\<close>: scale by the power of ten, round to the nearest integer
  with ties to the even one, scale back.
\<close>

definition rint :: "rat \<Rightarrow> int" where
  "rint x =
     (let f = \<lfloor>x\<rfloor>; r = x - of_int f
      in if r < 1 / 2 then f
         else if 1 / 2 < r then f + 1
         else if even f then f else f + 1)"

definition pow10 :: "int \<Rightarrow> rat" where
  "pow10 d = (if 0 \<le> d then 10 ^ nat d else 1 / 10 ^ nat (- d))"

definition np_round :: "rat \<Rightarrow> int \<Rightarrow> rat" where
  "np_round x decimals = of_int (rint (x * pow10 decimals)) / pow10 decimals"

text \<open>
  \<^verbatim>\<open>resample('B').sum()\<close> of pandas: one bin for each business day from the day of the
  earliest row to the day of the latest one, the rows of a Saturday and a Sunday falling
  into the bin of the Friday before, and a bin with no row having the sum 0.
\<close>

definition business_day :: "rat \<Rightarrow> int" where
  "business_day t =
     (let d = \<lfloor>t\<rfloor>
      in if d mod 7 = 5 then d - 1 else if d mod 7 = 6 then d - 2 else d)"

definition business_days :: "int \<Rightarrow> int \<Rightarrow> int list" where
  "business_days d1 d2 = filter (\<lambda>b. b mod 7 < 5) [d1..d2]"

definition first_day :: "int list \<Rightarrow> int" where
  "first_day days = foldl min (hd days) (tl days)"

definition last_day :: "int list \<Rightarrow> int" where
  "last_day days = foldl max (hd days) (tl days)"

definition resample_B_sum :: "column \<Rightarrow> column \<Rightarrow> column" where
  "resample_B_sum dt xs =
     (if dt = [] then []
      else
        let days = map business_day dt
        in map (\<lambda>b. sum_list (map snd (filter (\<lambda>dx. fst dx = b) (zip days xs))))
             (business_days (first_day days) (last_day days)))"

text \<open>\<^verbatim>\<open>s.mean()\<close>: NaN on an empty series.\<close>

definition mean :: "column \<Rightarrow> rat option" where
  "mean xs = (if xs = [] then None else Some (sum_list xs / of_nat (length xs)))"

definition mean_no_ticks :: "frame \<Rightarrow> string \<Rightarrow> error + rat option" where
  "mean_no_ticks df tgt_col =
     (case get_col df ''date_time'' of
        Inl e \<Rightarrow> Inl e
      | Inr dt \<Rightarrow>
          (case get_col df tgt_col of
             Inl e \<Rightarrow> Inl e
           | Inr xs \<Rightarrow> Inr (mean (resample_B_sum dt xs))))"

definition get_auto_threshold :: "frame \<Rightarrow> string \<Rightarrow> int \<Rightarrow> rat \<Rightarrow> error + rat option" where
  "get_auto_threshold df tgt_col rounding auto_ratio =
     (case mean_no_ticks df tgt_col of
        Inl e \<Rightarrow> Inl e
      | Inr m \<Rightarrow> Inr (map_option (\<lambda>x. np_round (x * auto_ratio) rounding) m))"

subsection \<open>The group assigner\<close>

datatype threshold = Auto | Fixed rat

text \<open>\<^verbatim>\<open>x >= th\<close>: False when \<open>th\<close> is NaN.\<close>

definition ge_th :: "rat \<Rightarrow> rat option \<Rightarrow> bool" where
  "ge_th x th = (case th of None \<Rightarrow> False | Some t \<Rightarrow> t \<le> x)"

text \<open>\<^verbatim>\<open>tmp.iloc[a:b, -1] = v\<close> on the last column, \<^verbatim>\<open>group\<close>.\<close>

definition set_slice :: "nat \<Rightarrow> nat \<Rightarrow> 'a \<Rightarrow> 'a list \<Rightarrow> 'a list" where
  "set_slice a b v xs = map (\<lambda>i. if a \<le> i \<and> i < b then v else xs ! i) [0..<length xs]"

text \<open>
  The state of the loop: the column \<^verbatim>\<open>tmp[cum_col]\<close>, the column \<^verbatim>\<open>tmp['group']\<close>,
  \<^verbatim>\<open>group\<close> (here \<open>group_id\<close>) and \<^verbatim>\<open>ref_row\<close>. One turn of the loop, at \<open>row\<close>:
\<close>

type_synonym loop_state = "column \<times> nat option list \<times> nat \<times> nat"

fun loop_body :: "rat option \<Rightarrow> loop_state \<Rightarrow> nat \<Rightarrow> loop_state" where
  "loop_body th (cum, groups, group_id, ref_row) row =
     (if ge_th (cum ! row) th then
        let ref = cum ! row
        in (map (\<lambda>x. x - ref) cum, set_slice ref_row (row + 1) (Some group_id) groups,
            group_id + 1, row + 1)
      else (cum, groups, group_id, ref_row))"

definition assign_loop :: "rat option \<Rightarrow> nat \<Rightarrow> column \<Rightarrow> loop_state" where
  "assign_loop th n cum = foldl (loop_body th) (cum, replicate n None, 0, 0) [0..<n]"

text \<open>
  \<^verbatim>\<open>_assign_groups_threshold\<close>. The column \<^verbatim>\<open>group\<close> is the last one of \<open>tmp\<close> as
  long as the frame has no column of that name yet. The first read of
  \<^verbatim>\<open>tmp.iloc[row][cum_col]\<close> raises KeyError when the column is missing, so a frame
  with no row never raises it.
\<close>

definition resolve_threshold ::
  "nat \<Rightarrow> threshold \<Rightarrow> string \<Rightarrow> int \<Rightarrow> rat \<Rightarrow> world \<Rightarrow> (error + rat option) \<times> world" where
  "resolve_threshold df threshold tgt_col rounding auto_ratio w =
     (case threshold of
        Auto \<Rightarrow>
          (case get_auto_threshold (heap w ! df) tgt_col rounding auto_ratio of
             Inl e \<Rightarrow> (Inl e, w)
           | Inr th \<Rightarrow> (Inr th, print th w))
      | Fixed t \<Rightarrow> (Inr (Some t), w))"

definition assign_groups_threshold ::
  "nat \<Rightarrow> threshold \<Rightarrow> string \<Rightarrow> string \<Rightarrow> int \<Rightarrow> rat \<Rightarrow> world
     \<Rightarrow> (error + nat option list) \<times> world" where
  "assign_groups_threshold df threshold tgt_col cum_col rounding auto_ratio w =
     (let (tmp, w1) = copy_deep df w
      in case resolve_threshold df threshold tgt_col rounding auto_ratio w1 of
           (Inl e, w2) \<Rightarrow> (Inl e, w2)
         | (Inr th, w2) \<Rightarrow>
             (let n = nrows (heap w2 ! df)
              in if n = 0 then (Inr [], w2)
                 else
                   (case get_col (heap w2 ! tmp) cum_col of
                      Inl e \<Rightarrow> (Inl e, w2)
                    | Inr cum \<Rightarrow>
                        (case assign_loop th n cum of
                           (cum', groups, group_id, ref_row) \<Rightarrow>
                             (Inr groups, store_col tmp cum_col cum' w2)))))"

subsection \<open>The loop on a float64 column\<close>

text \<open>
  A column of pandas holds float64 numbers, the rationals \<open>m * 2 ^ e\<close> with
  \<open>\<bar>m\<bar> < 2 ^ 53\<close>, and \<^verbatim>\<open>tmp[cum_col] -= ref\<close> stores in every row the float64 number
  nearest to the exact difference, the one with the even \<open>m\<close> when two are equally near.
  \<open>exponent64\<close> looks for the \<open>e\<close> with \<open>2 ^ 52 \<le> \<bar>x\<bar> / 2 ^ e < 2 ^ 53\<close>, which it reaches
  within 1126 steps for every difference of two float64 numbers other than 0, and \<open>fl64\<close>
  rounds at that exponent. A difference below the normal range of float64 is exact here
  as it is there. Overflow to infinity is left out, and so are NaN and the infinities as
  cells of the column.
\<close>

fun exponent64 :: "nat \<Rightarrow> rat \<Rightarrow> int" where
  "exponent64 0 x = 0"
| "exponent64 (Suc fuel) x =
     (if x < 2 ^ 52 then exponent64 fuel (2 * x) - 1
      else if 2 ^ 53 \<le> x then exponent64 fuel (x / 2) + 1
      else 0)"

definition pow2 :: "int \<Rightarrow> rat" where
  "pow2 e = (if 0 \<le> e then 2 ^ nat e else 1 / 2 ^ nat (- e))"

definition fl64 :: "rat \<Rightarrow> rat" where
  "fl64 x =
     (if x = 0 then 0
      else let e = exponent64 1126 \<bar>x\<bar> in of_int (rint (x / pow2 e)) * pow2 e)"

definition minus64 :: "rat \<Rightarrow> rat \<Rightarrow> rat" where
  "minus64 x y = fl64 (x - y)"

text \<open>
  One turn of the loop, and the loop, on a column whose numbers subtract with \<open>sub\<close>:
  \<open>minus64\<close> for the float64 column of the source. With the exact subtraction it is
  \<open>loop_body\<close>.
\<close>

fun loop_body_with ::
  "(rat \<Rightarrow> rat \<Rightarrow> rat) \<Rightarrow> rat option \<Rightarrow> loop_state \<Rightarrow> nat \<Rightarrow> loop_state" where
  "loop_body_with sub th (cum, groups, group_id, ref_row) row =
     (if ge_th (cum ! row) th then
        let ref = cum ! row
        in (map (\<lambda>x. sub x ref) cum, set_slice ref_row (row + 1) (Some group_id) groups,
            group_id + 1, row + 1)
      else (cum, groups, group_id, ref_row))"

definition assign_loop_with ::
  "(rat \<Rightarrow> rat \<Rightarrow> rat) \<Rightarrow> rat option \<Rightarrow> nat \<Rightarrow> column \<Rightarrow> loop_state" where
  "assign_loop_with sub th n cum =
     foldl (loop_body_with sub th) (cum, replicate n None, 0, 0) [0..<n]"

subsection \<open>Aggregation of the groups into bars\<close>

text \<open>
  The columns of the result, after the renaming: \<^verbatim>\<open>date_time\<close>, \<^verbatim>\<open>open\<close>,
  \<^verbatim>\<open>high\<close>, \<^verbatim>\<open>low\<close>, \<^verbatim>\<open>close\<close>, \<^verbatim>\<open>ticks\<close>, \<^verbatim>\<open>volume\<close>, \<^verbatim>\<open>dollar\<close>.
\<close>

record bar =
  bar_date_time :: rat
  bar_open :: rat
  bar_high :: rat
  bar_low :: rat
  bar_close :: rat
  bar_ticks :: rat
  bar_volume :: rat
  bar_dollar :: rat

text \<open>
  \<^verbatim>\<open>df.groupby(groups)\<close>: one group for each key, in ascending order of the keys; a row
  whose key is NaN belongs to no group (pandas drops it).
\<close>

definition group_keys :: "nat option list \<Rightarrow> nat list" where
  "group_keys groups = sort (remdups (concat (map (\<lambda>g. case g of None \<Rightarrow> [] | Some k \<Rightarrow> [k]) groups)))"

definition group_rows :: "nat option list \<Rightarrow> nat \<Rightarrow> nat list" where
  "group_rows groups k = filter (\<lambda>i. groups ! i = Some k) [0..<length groups]"

definition pick :: "column \<Rightarrow> nat list \<Rightarrow> column" where
  "pick c rows = map (\<lambda>i. c ! i) rows"

definition agg_bar ::
  "column \<Rightarrow> column \<Rightarrow> column \<Rightarrow> column \<Rightarrow> column \<Rightarrow> nat list \<Rightarrow> bar" where
  "agg_bar dt price ticks volume dollar rows =
     \<lparr>bar_date_time = last (pick dt rows),
      bar_open = hd (pick price rows),
      bar_high = foldl max (hd (pick price rows)) (tl (pick price rows)),
      bar_low = foldl min (hd (pick price rows)) (tl (pick price rows)),
      bar_close = last (pick price rows),
      bar_ticks = sum_list (pick ticks rows),
      bar_volume = sum_list (pick volume rows),
      bar_dollar = sum_list (pick dollar rows)\<rparr>"

definition groupby_agg :: "frame \<Rightarrow> nat option list \<Rightarrow> error + bar list" where
  "groupby_agg df groups =
     (case get_col df ''date_time'' of Inl e \<Rightarrow> Inl e | Inr dt \<Rightarrow>
     (case get_col df ''price'' of Inl e \<Rightarrow> Inl e | Inr price \<Rightarrow>
     (case get_col df ''ticks'' of Inl e \<Rightarrow> Inl e | Inr ticks \<Rightarrow>
     (case get_col df ''volume'' of Inl e \<Rightarrow> Inl e | Inr volume \<Rightarrow>
     (case get_col df ''dollar'' of Inl e \<Rightarrow> Inl e | Inr dollar \<Rightarrow>
        Inr (map (\<lambda>k. agg_bar dt price ticks volume dollar (group_rows groups k))
               (group_keys groups)))))))"

subsection \<open>The three samplers and their entry point\<close>

text \<open>
  \<^verbatim>\<open>_get_tick_bar\<close>, \<^verbatim>\<open>_get_volume_bar\<close> and \<^verbatim>\<open>_get_dollar_bar\<close> differ in the
  column they accumulate. Each writes the cumulative column into the frame it is given.
\<close>

definition get_bar ::
  "string \<Rightarrow> string \<Rightarrow> nat \<Rightarrow> threshold \<Rightarrow> int \<Rightarrow> rat \<Rightarrow> world \<Rightarrow> (error + bar list) \<times> world" where
  "get_bar tgt_col cum_col df threshold rounding auto_ratio w =
     (case get_col (heap w ! df) tgt_col of
        Inl e \<Rightarrow> (Inl e, w)
      | Inr xs \<Rightarrow>
          (let w1 = store_col df cum_col (cumsum xs) w
           in case assign_groups_threshold df threshold tgt_col cum_col rounding auto_ratio w1 of
                (Inl e, w2) \<Rightarrow> (Inl e, w2)
              | (Inr groups, w2) \<Rightarrow> (groupby_agg (heap w2 ! df) groups, w2)))"

definition get_tick_bar ::
  "nat \<Rightarrow> threshold \<Rightarrow> int \<Rightarrow> rat \<Rightarrow> world \<Rightarrow> (error + bar list) \<times> world" where
  "get_tick_bar = get_bar ''ticks'' ''cum_ticks''"

definition get_volume_bar ::
  "nat \<Rightarrow> threshold \<Rightarrow> int \<Rightarrow> rat \<Rightarrow> world \<Rightarrow> (error + bar list) \<times> world" where
  "get_volume_bar = get_bar ''volume'' ''cum_vol''"

definition get_dollar_bar ::
  "nat \<Rightarrow> threshold \<Rightarrow> int \<Rightarrow> rat \<Rightarrow> world \<Rightarrow> (error + bar list) \<times> world" where
  "get_dollar_bar = get_bar ''dollar'' ''cum_dol''"

definition POSSIBLE_BAR_TYPES :: "string list" where
  "POSSIBLE_BAR_TYPES = [''tick'', ''volume'', ''dollar'']"

definition sample_bar ::
  "nat \<Rightarrow> string \<Rightarrow> threshold \<Rightarrow> string \<Rightarrow> string \<Rightarrow> string \<Rightarrow> int \<Rightarrow> rat \<Rightarrow> world
     \<Rightarrow> (error + bar list) \<times> world" where
  "sample_bar df bar_type threshold datetime_col price_col vol_col rounding auto_ratio w =
     (if datetime_col \<notin> set (columns (heap w ! df)) then (Inl (AssertionError datetime_col), w)
      else if price_col \<notin> set (columns (heap w ! df)) then (Inl (AssertionError price_col), w)
      else if vol_col \<notin> set (columns (heap w ! df)) then (Inl (AssertionError vol_col), w)
      else if bar_type \<notin> set POSSIBLE_BAR_TYPES then (Inl (AssertionError bar_type), w)
      else
        (let (aux, w1) = copy_deep df w;
             w2 = store_col aux ''ticks'' (replicate (nrows (heap w1 ! aux)) 1) w1
         in case get_col (heap w2 ! aux) price_col of
              Inl e \<Rightarrow> (Inl e, w2)
            | Inr price \<Rightarrow>
                (case get_col (heap w2 ! aux) vol_col of
                   Inl e \<Rightarrow> (Inl e, w2)
                 | Inr vol \<Rightarrow>
                     (let w3 = store_col aux ''dollar'' (map2 (*) price vol) w2
                      in if bar_type = ''tick'' then
                           get_tick_bar aux threshold rounding auto_ratio w3
                         else if bar_type = ''volume'' then
                           get_volume_bar aux threshold rounding auto_ratio w3
                         else get_dollar_bar aux threshold rounding auto_ratio w3))))"

section \<open>Notions of the specification\<close>

text \<open>
  The baseline of a bar that starts at row \<open>s\<close> is the cumulative measure of the row
  before it (0 for the first bar), and the cumulative measure rebased at \<open>s\<close> is what the
  rows from \<open>s\<close> on have accumulated.
\<close>

definition baseline_before :: "column \<Rightarrow> nat \<Rightarrow> rat" where
  "baseline_before cum s = (if s = 0 then 0 else cum ! (s - 1))"

definition rebased :: "column \<Rightarrow> nat \<Rightarrow> nat \<Rightarrow> rat" where
  "rebased cum s i = cum ! i - baseline_before cum s"

text \<open>
  The single forward pass of section 4.2 of the specification, in its words: it carries
  \<open>group_id\<close>, \<open>group_start_index\<close> and the scalar \<open>baseline\<close>; a row whose
  \<open>local_cumsum\<close> reaches the threshold gets the rows from \<open>group_start_index\<close> to itself
  assigned, and after the pass the rows from \<open>group_start_index\<close> to the end are
  assigned the current \<open>group_id\<close>.
\<close>

type_synonym spec_state = "nat list \<times> nat \<times> nat \<times> rat"

fun spec_step :: "rat \<Rightarrow> column \<Rightarrow> spec_state \<Rightarrow> nat \<Rightarrow> spec_state" where
  "spec_step threshold cumulative_measure (out, group_id, group_start_index, baseline) i =
     (let local_cumsum = cumulative_measure ! i - baseline
      in if threshold \<le> local_cumsum then
           (set_slice group_start_index (i + 1) group_id out, group_id + 1, i + 1,
            cumulative_measure ! i)
         else (out, group_id, group_start_index, baseline))"

definition spec_assign_groups :: "column \<Rightarrow> rat \<Rightarrow> nat list" where
  "spec_assign_groups cumulative_measure threshold =
     (let n = length cumulative_measure
      in case foldl (spec_step threshold cumulative_measure) (replicate n 0, 0, 0, 0) [0..<n] of
           (out, group_id, group_start_index, baseline) \<Rightarrow>
             set_slice group_start_index n group_id out)"

text \<open>The same pass, in the same words, on numbers that subtract with \<open>sub\<close>.\<close>

fun spec_step_with ::
  "(rat \<Rightarrow> rat \<Rightarrow> rat) \<Rightarrow> rat \<Rightarrow> column \<Rightarrow> spec_state \<Rightarrow> nat \<Rightarrow> spec_state" where
  "spec_step_with sub threshold cumulative_measure (out, group_id, group_start_index, baseline) i =
     (let local_cumsum = sub (cumulative_measure ! i) baseline
      in if threshold \<le> local_cumsum then
           (set_slice group_start_index (i + 1) group_id out, group_id + 1, i + 1,
            cumulative_measure ! i)
         else (out, group_id, group_start_index, baseline))"

definition spec_assign_groups_with ::
  "(rat \<Rightarrow> rat \<Rightarrow> rat) \<Rightarrow> column \<Rightarrow> rat \<Rightarrow> nat list" where
  "spec_assign_groups_with sub cumulative_measure threshold =
     (let n = length cumulative_measure
      in case foldl (spec_step_with sub threshold cumulative_measure) (replicate n 0, 0, 0, 0)
                [0..<n] of
           (out, group_id, group_start_index, baseline) \<Rightarrow>
             set_slice group_start_index n group_id out)"

text \<open>
  The mean daily total in the words of the specification: the sums of the measure within
  each business day, averaged over the business days that have a row.
\<close>

definition days_present_mean :: "column \<Rightarrow> column \<Rightarrow> rat" where
  "days_present_mean dt xs =
     (let days = map business_day dt; present = remdups days
      in sum_list (map (\<lambda>b. sum_list (map snd (filter (\<lambda>dx. fst dx = b) (zip days xs)))) present)
           / of_nat (length present))"

section \<open>Invariants of the loop\<close>

text \<open>The group assignment the loop ends with.\<close>

definition groups_of :: "rat option \<Rightarrow> column \<Rightarrow> nat option list" where
  "groups_of th cum = fst (snd (assign_loop th (length cum) cum))"

text \<open>
  After \<open>k\<close> rows: the column holds the cumulative measure rebased at \<open>ref_row\<close>, the
  rows below \<open>ref_row\<close> carry the ids below \<open>group_id\<close>, the rows from \<open>ref_row\<close> on carry
  none and have stayed below the threshold.
\<close>

definition inv_basic :: "rat \<Rightarrow> column \<Rightarrow> nat \<Rightarrow> loop_state \<Rightarrow> bool" where
  "inv_basic t cum k st =
     (case st of (col, gs, g, r) \<Rightarrow>
        r \<le> k \<and> length gs = length cum \<and> col = map (\<lambda>x. x - baseline_before cum r) cum
        \<and> (\<forall>i. r \<le> i \<and> i < length cum \<longrightarrow> gs ! i = None)
        \<and> (\<forall>i<r. \<exists>j<g. gs ! i = Some j)
        \<and> (\<forall>i. r \<le> i \<and> i < k \<longrightarrow> rebased cum r i < t)
        \<and> (r = 0 \<longrightarrow> g = 0)
        \<and> (0 < r \<longrightarrow> 0 < g \<and> gs ! (r - 1) = Some (g - 1)))"

text \<open>
  Group \<open>j\<close> spans the rows \<open>s\<close> to \<open>e\<close>: it reaches the threshold at \<open>e\<close> and not before,
  and it starts where group \<open>j - 1\<close> ends.
\<close>

definition group_span :: "rat \<Rightarrow> column \<Rightarrow> nat option list \<Rightarrow> nat \<Rightarrow> nat \<Rightarrow> nat \<Rightarrow> bool" where
  "group_span t cum gs j s e =
     (s \<le> e \<and> e < length cum \<and> (\<forall>i<length cum. gs ! i = Some j \<longleftrightarrow> s \<le> i \<and> i \<le> e)
      \<and> t \<le> rebased cum s e \<and> (\<forall>i. s \<le> i \<and> i < e \<longrightarrow> rebased cum s i < t)
      \<and> (j = 0 \<longrightarrow> s = 0) \<and> (0 < j \<longrightarrow> 0 < s \<and> gs ! (s - 1) = Some (j - 1)))"

definition inv_groups :: "rat \<Rightarrow> column \<Rightarrow> loop_state \<Rightarrow> bool" where
  "inv_groups t cum st =
     (case st of (col, gs, g, r) \<Rightarrow>
        (\<forall>j<g. \<exists>s e. e < r \<and> group_span t cum gs j s e)
        \<and> (\<forall>i i' a b. i \<le> i' \<and> i' < length cum \<and> gs ! i = Some a \<and> gs ! i' = Some b \<longrightarrow> a \<le> b))"

definition loop_inv :: "rat \<Rightarrow> column \<Rightarrow> nat \<Rightarrow> loop_state \<Rightarrow> bool" where
  "loop_inv t cum k st = (inv_basic t cum k st \<and> inv_groups t cum st)"

text \<open>The pass of the specification and the loop of the source, after the same rows.\<close>

definition spec_rel :: "column \<Rightarrow> spec_state \<Rightarrow> loop_state \<Rightarrow> bool" where
  "spec_rel cum ss st =
     (case ss of (out, g', start, b) \<Rightarrow>
      case st of (col, gs, g, r) \<Rightarrow>
        g' = g \<and> start = r \<and> b = baseline_before cum r \<and> length out = length cum
        \<and> (\<forall>i<r. gs ! i = Some (out ! i)))"

text \<open>
  The tables the sampler is written for: the three columns under their default names,
  one cell per row in every column, and no column \<^verbatim>\<open>group\<close> yet (so that the one the
  group assigner adds is the last).
\<close>

definition valid_table :: "frame \<Rightarrow> bool" where
  "valid_table fr =
     (wf_frame fr \<and> ''date_time'' \<in> set (columns fr) \<and> ''price'' \<in> set (columns fr)
      \<and> ''volume'' \<in> set (columns fr) \<and> ''group'' \<notin> set (columns fr))"

text \<open>The column a bar type accumulates.\<close>

definition measure_of :: "string \<Rightarrow> column \<Rightarrow> column \<Rightarrow> column" where
  "measure_of bar_type price vol =
     (if bar_type = ''tick'' then replicate (length price) 1
      else if bar_type = ''volume'' then vol
      else map2 (*) price vol)"

text \<open>What a call in the world \<open>w\<close> has printed when it ends in \<open>w'\<close>: nothing with a fixed
  threshold and at most one value with \<^verbatim>\<open>'auto'\<close>.\<close>

definition emitted :: "threshold \<Rightarrow> world \<Rightarrow> world \<Rightarrow> bool" where
  "emitted threshold w w' =
     (\<exists>out. length out \<le> 1
        \<and> stdout w' = stdout w @ (case threshold of Auto \<Rightarrow> out | Fixed t \<Rightarrow> []))"

text \<open>
  The subtractions that the loop and the pass of section 4.2 make on the column \<open>cum\<close> are
  exact: each takes a cumulative measure, or 0, from a cumulative measure, the loop after
  it has rebased both at an earlier crossing, or not at all.
\<close>

definition exact_on :: "(rat \<Rightarrow> rat \<Rightarrow> rat) \<Rightarrow> column \<Rightarrow> bool" where
  "exact_on sub cum =
     (\<forall>x\<in>set cum. \<forall>b\<in>set (0 # cum). \<forall>c\<in>set (0 # cum). sub (x - b) (c - b) = x - c)"

text \<open>A column of integers below \<open>2 ^ 52\<close> in magnitude, as a cumulative tick count is.\<close>

definition int_column :: "column \<Rightarrow> bool" where
  "int_column cum = (\<forall>x\<in>set cum. of_int \<lfloor>x\<rfloor> = x \<and> \<bar>x\<bar> < 2 ^ 52)"

text \<open>
  The state in which the loop reaches row \<open>k\<close>, and whether its test
  \<^verbatim>\<open>tmp.iloc[row][cum_col] >= th\<close> succeeds at row \<open>k\<close>: a crossing.
\<close>

definition state_at :: "(rat \<Rightarrow> rat \<Rightarrow> rat) \<Rightarrow> rat option \<Rightarrow> column \<Rightarrow> nat \<Rightarrow> loop_state" where
  "state_at sub th cum k =
     foldl (loop_body_with sub th) (cum, replicate (length cum) None, 0, 0) [0..<k]"

definition crosses :: "(rat \<Rightarrow> rat \<Rightarrow> rat) \<Rightarrow> rat option \<Rightarrow> column \<Rightarrow> nat \<Rightarrow> bool" where
  "crosses sub th cum k = ge_th (fst (state_at sub th cum k) ! k) th"

text \<open>The cell of row \<open>k\<close> that this test reads: the cumulative measure as the loop holds it
  when it reaches the row, after the subtractions at the crossings before.\<close>

definition held :: "(rat \<Rightarrow> rat \<Rightarrow> rat) \<Rightarrow> rat option \<Rightarrow> column \<Rightarrow> nat \<Rightarrow> rat" where
  "held sub th cum k = fst (state_at sub th cum k) ! k"

text \<open>The number of crossings before row \<open>k\<close>.\<close>

definition crossings :: "(rat \<Rightarrow> rat \<Rightarrow> rat) \<Rightarrow> rat option \<Rightarrow> column \<Rightarrow> nat \<Rightarrow> nat" where
  "crossings sub th cum k = length (filter (crosses sub th cum) [0..<k])"

text \<open>
  After \<open>k\<close> rows, whatever the subtraction: \<open>ref_row\<close> is the row after the last
  crossing, \<open>group_id\<close> the number of crossings, a row below \<open>ref_row\<close> carries the number
  of crossings before it, a row from \<open>ref_row\<close> on carries none, and every id below
  \<open>group_id\<close> has an interval of rows that ends at a crossing.
\<close>

definition shape_inv ::
  "(rat \<Rightarrow> rat \<Rightarrow> rat) \<Rightarrow> rat option \<Rightarrow> column \<Rightarrow> nat \<Rightarrow> loop_state \<Rightarrow> bool" where
  "shape_inv sub th cum k st =
     (case st of (col, gs, g, r) \<Rightarrow>
        length gs = length cum \<and> r \<le> k \<and> g = crossings sub th cum k
        \<and> (0 < r \<longrightarrow> crosses sub th cum (r - 1))
        \<and> (\<forall>j. r \<le> j \<and> j < k \<longrightarrow> \<not> crosses sub th cum j)
        \<and> (\<forall>i<r. gs ! i = Some (crossings sub th cum i) \<and> crossings sub th cum i < g)
        \<and> (\<forall>i. r \<le> i \<and> i < length cum \<longrightarrow> gs ! i = None)
        \<and> (\<forall>j<g. \<exists>s e. s \<le> e \<and> e < r \<and> crosses sub th cum e
               \<and> (\<forall>i<length cum. gs ! i = Some j \<longleftrightarrow> s \<le> i \<and> i \<le> e)))"

section \<open>Sample inputs\<close>

definition W3 :: world where
  "W3 = \<lparr>heap = [[(''date_time'', [0, 1, 2]), (''ticks'', [1, 1, 1]), (''cum_ticks'', [1, 2, 3])]],
          stdout = []\<rparr>"

definition W5 :: world where
  "W5 = \<lparr>heap = [[(''date_time'', [0, 1, 2, 3, 4]), (''price'', [10, 11, 9, 12, 10]),
                   (''volume'', [1, 1, 1, 1, 1])]],
          stdout = []\<rparr>"

definition T3 :: world where
  "T3 = \<lparr>heap = [[(''date_time'', [0, 1, 2]), (''price'', [10, 11, 9]), (''volume'', [1, 1, 1])]],
          stdout = []\<rparr>"

definition E0 :: world where
  "E0 = \<lparr>heap = [[(''date_time'', []), (''price'', []), (''volume'', [])]], stdout = []\<rparr>"

text \<open>A Monday and the Wednesday after it, with no row on the Tuesday between them.\<close>

definition G2 :: frame where
  "G2 = [(''date_time'', [0, 2]), (''volume'', [300, 300])]"

text \<open>
  A float64 column, the cumulative sums that print as 0.4, 1.1, 1.4000000000000001,
  1.5000000000000002 and 2.5 (pandas adds them up from the volumes 0.4, 0.7, 0.3, 0.1 and
  1.0), and the float64 number nearest to 0.3.
\<close>

definition C64 :: column where
  "C64 = [3602879701896397 / 9007199254740992, 2476979795053773 / 2251799813685248,
          6305039478318695 / 4503599627370496, 6755399441055745 / 4503599627370496, 5 / 2]"

definition th64 :: rat where
  "th64 = 5404319552844595 / 18014398509481984"

section \<open>Properties of the loop\<close>

lemma foldl_upt_inv:
  assumes "P 0 s0" and "\<And>k s. k < n \<Longrightarrow> P k s \<Longrightarrow> P (Suc k) (f s k)"
  shows "P n (foldl f s0 [0..<n])"
proof -
  have "m \<le> n \<Longrightarrow> P m (foldl f s0 [0..<m])" for m
  proof (induction m)
    case 0
    show ?case using assms(1) by simp
  next
    case (Suc m)
    then show ?case using assms(2)[of m "foldl f s0 [0..<m]"] by simp
  qed
  then show ?thesis by simp
qed

lemma set_slice_length [simp]: "length (set_slice a b v xs) = length xs"
  by (simp add: set_slice_def)

lemma set_slice_nth:
  "i < length xs \<Longrightarrow> set_slice a b v xs ! i = (if a \<le> i \<and> i < b then v else xs ! i)"
  by (simp add: set_slice_def)

lemma inv_basic_init: "inv_basic t cum 0 (cum, replicate (length cum) None, 0, 0)"
  by (simp add: inv_basic_def baseline_before_def)

lemma inv_basic_step:
  assumes "inv_basic t cum k st" "k < length cum"
  shows "inv_basic t cum (Suc k) (loop_body (Some t) st k)"
proof -
  obtain col gs g r where st: "st = (col, gs, g, r)" by (cases st) auto
  from assms st have rk: "r \<le> k" and len: "length gs = length cum"
    and col: "col = map (\<lambda>x. x - baseline_before cum r) cum"
    and none: "\<forall>i. r \<le> i \<and> i < length cum \<longrightarrow> gs ! i = None"
    and some: "\<forall>i<r. \<exists>j<g. gs ! i = Some j"
    and pend: "\<forall>i. r \<le> i \<and> i < k \<longrightarrow> rebased cum r i < t"
    and r0: "r = 0 \<longrightarrow> g = 0"
    and rpos: "0 < r \<longrightarrow> 0 < g \<and> gs ! (r - 1) = Some (g - 1)"
    by (simp_all add: inv_basic_def)
  have colk: "col ! k = rebased cum r k"
    using col assms(2) by (simp add: rebased_def)
  show ?thesis
  proof (cases "t \<le> rebased cum r k")
    case False
    then have "loop_body (Some t) st k = st"
      by (simp add: st ge_th_def colk)
    moreover have "\<forall>i. r \<le> i \<and> i < Suc k \<longrightarrow> rebased cum r i < t"
      using pend False by (auto simp: less_Suc_eq)
    ultimately show ?thesis
      using rk len col none some r0 rpos by (simp add: inv_basic_def st)
  next
    case True
    have eq: "loop_body (Some t) st k =
        (map (\<lambda>x. x - col ! k) col, set_slice r (Suc k) (Some g) gs, Suc g, Suc k)"
      using True by (simp add: st ge_th_def colk Let_def)
    have c1: "map (\<lambda>x. x - col ! k) col = map (\<lambda>x. x - baseline_before cum (Suc k)) cum"
      unfolding colk by (simp add: col rebased_def baseline_before_def)
    have c2: "\<forall>i. Suc k \<le> i \<and> i < length cum \<longrightarrow> set_slice r (Suc k) (Some g) gs ! i = None"
      using none rk len by (simp add: set_slice_nth)
    have c3: "\<forall>i<Suc k. \<exists>j<Suc g. set_slice r (Suc k) (Some g) gs ! i = Some j"
    proof (intro allI impI)
      fix i assume i: "i < Suc k"
      show "\<exists>j<Suc g. set_slice r (Suc k) (Some g) gs ! i = Some j"
      proof (cases "r \<le> i")
        case True
        then show ?thesis using i assms(2) len by (simp add: set_slice_nth)
      next
        case False
        then have "i < r" by simp
        with some obtain j where "j < g" "gs ! i = Some j" by blast
        then show ?thesis using False i assms(2) len by (auto simp: set_slice_nth)
      qed
    qed
    have c4: "set_slice r (Suc k) (Some g) gs ! k = Some g"
      using rk assms(2) len by (simp add: set_slice_nth)
    show ?thesis
      unfolding eq inv_basic_def using len c1 c2 c3 c4 by simp
  qed
qed

lemma inv_groups_init: "inv_groups t cum (cum, replicate (length cum) None, 0, 0)"
  by (auto simp: inv_groups_def)

lemma inv_groups_step:
  assumes b: "inv_basic t cum k st" and i: "inv_groups t cum st" and k: "k < length cum"
  shows "inv_groups t cum (loop_body (Some t) st k)"
proof -
  obtain col gs g r where st: "st = (col, gs, g, r)" by (cases st) auto
  from b st have rk: "r \<le> k" and len: "length gs = length cum"
    and col: "col = map (\<lambda>x. x - baseline_before cum r) cum"
    and none: "\<forall>i. r \<le> i \<and> i < length cum \<longrightarrow> gs ! i = None"
    and some: "\<forall>i<r. \<exists>j<g. gs ! i = Some j"
    and pend: "\<forall>i. r \<le> i \<and> i < k \<longrightarrow> rebased cum r i < t"
    and r0: "r = 0 \<longrightarrow> g = 0"
    and rpos: "0 < r \<longrightarrow> 0 < g \<and> gs ! (r - 1) = Some (g - 1)"
    by (simp_all add: inv_basic_def)
  from i st have spans: "\<forall>j<g. \<exists>s e. e < r \<and> group_span t cum gs j s e"
    and mono: "\<forall>i i' a b. i \<le> i' \<and> i' < length cum \<and> gs ! i = Some a \<and> gs ! i' = Some b \<longrightarrow> a \<le> b"
    by (simp_all add: inv_groups_def)
  have colk: "col ! k = rebased cum r k"
    using col k by (simp add: rebased_def)
  show ?thesis
  proof (cases "t \<le> rebased cum r k")
    case False
    then have "loop_body (Some t) st k = st"
      by (simp add: st ge_th_def colk)
    then show ?thesis using i by simp
  next
    case True
    let ?gs = "set_slice r (Suc k) (Some g) gs"
    have eq: "loop_body (Some t) st k = (map (\<lambda>x. x - col ! k) col, ?gs, Suc g, Suc k)"
      using True by (simp add: st ge_th_def colk Let_def)
    have nth: "?gs ! i = (if r \<le> i \<and> i \<le> k then Some g else gs ! i)" if "i < length cum" for i
      using that len by (simp add: set_slice_nth less_Suc_eq_le)
    have old: "gs ! i \<noteq> Some g" if "i < length cum" for i
    proof (cases "i < r")
      case True
      with some obtain j where "j < g" "gs ! i = Some j" by blast
      then show ?thesis by simp
    next
      case False
      then show ?thesis using none that by simp
    qed
    have new_span: "group_span t cum ?gs g r k"
    proof -
      have "\<forall>i<length cum. ?gs ! i = Some g \<longleftrightarrow> r \<le> i \<and> i \<le> k"
        using nth old by simp
      moreover have "g = 0 \<longrightarrow> r = 0" using rpos by auto
      moreover have "0 < g \<longrightarrow> 0 < r \<and> ?gs ! (r - 1) = Some (g - 1)"
      proof
        assume "0 < g"
        then have "0 < r" using r0 by auto
        moreover from this have "r - 1 < length cum" "\<not> r \<le> r - 1"
          using rk k by auto
        then have "?gs ! (r - 1) = gs ! (r - 1)"
          using nth[of "r - 1"] by simp
        ultimately show "0 < r \<and> ?gs ! (r - 1) = Some (g - 1)" using rpos by simp
      qed
      ultimately show ?thesis
        unfolding group_span_def using rk k True pend by simp
    qed
    have old_span: "group_span t cum ?gs j s e" if "j < g" "e < r" "group_span t cum gs j s e" for j s e
    proof -
      have "?gs ! i = Some j \<longleftrightarrow> gs ! i = Some j" if "i < length cum" for i
        using nth[OF that] none that \<open>j < g\<close> by auto
      moreover have "s - 1 < length cum" "\<not> r \<le> s - 1"
        using that rk k by (auto simp: group_span_def)
      then have "?gs ! (s - 1) = gs ! (s - 1)"
        using nth[of "s - 1"] by simp
      ultimately show ?thesis
        using that(3) unfolding group_span_def by simp
    qed
    have c1: "\<forall>j<Suc g. \<exists>s e. e < Suc k \<and> group_span t cum ?gs j s e"
    proof (intro allI impI)
      fix j assume "j < Suc g"
      show "\<exists>s e. e < Suc k \<and> group_span t cum ?gs j s e"
      proof (cases "j = g")
        case True
        then show ?thesis using new_span by blast
      next
        case False
        with \<open>j < Suc g\<close> have jg: "j < g" by simp
        with spans obtain s e where "e < r" "group_span t cum gs j s e" by blast
        then have "e < Suc k" "group_span t cum ?gs j s e"
          using rk old_span[OF jg] by simp_all
        then show ?thesis by blast
      qed
    qed
    have c2: "\<forall>i i' a b. i \<le> i' \<and> i' < length cum \<and> ?gs ! i = Some a \<and> ?gs ! i' = Some b \<longrightarrow> a \<le> b"
    proof (intro allI impI, elim conjE)
      fix i i' a b
      assume h: "i \<le> i'" "i' < length cum" "?gs ! i = Some a" "?gs ! i' = Some b"
      then have il: "i < length cum" by simp
      show "a \<le> b"
      proof (cases "r \<le> i'")
        case True
        then have b: "b = g" using h(2,4) nth[of i'] none by (auto split: if_splits)
        have "a \<le> g"
        proof (cases "r \<le> i")
          case True
          then show ?thesis using h(3) nth[OF il] none il by (auto split: if_splits)
        next
          case False
          then have "i < r" by simp
          with some obtain j where "j < g" "gs ! i = Some j" by blast
          then show ?thesis using h(3) nth[OF il] False by simp
        qed
        then show ?thesis using b by simp
      next
        case False
        then have "gs ! i = Some a" "gs ! i' = Some b"
          using h nth[OF il] nth[of i'] by auto
        then show ?thesis using mono h(1,2) by blast
      qed
    qed
    show ?thesis unfolding eq inv_groups_def using c1 c2 by simp
  qed
qed

lemma assign_loop_inv:
  "loop_inv t cum (length cum) (assign_loop (Some t) (length cum) cum)"
  unfolding assign_loop_def
proof (rule foldl_upt_inv)
  show "loop_inv t cum 0 (cum, replicate (length cum) None, 0, 0)"
    by (simp add: loop_inv_def inv_basic_init inv_groups_init)
next
  fix k s assume "k < length cum" "loop_inv t cum k s"
  then show "loop_inv t cum (Suc k) (loop_body (Some t) s k)"
    by (simp add: loop_inv_def inv_basic_step inv_groups_step)
qed

lemma wf_frame_length:
  assumes "wf_frame fr" "get_col fr c = Inr cum"
  shows "length cum = nrows fr"
proof -
  from assms(2) have "map_of fr c = Some cum"
    by (simp add: get_col_def split: option.splits)
  then have "(c, cum) \<in> set fr" by (rule map_of_SomeD)
  with assms(1) show ?thesis
    by (auto simp: wf_frame_def list_all_iff)
qed

lemma assign_groups_fixed:
  assumes "df < length (heap w)" "wf_frame (heap w ! df)" "get_col (heap w ! df) cum_col = Inr cum"
  shows "fst (assign_groups_threshold df (Fixed t) tgt_col cum_col rounding auto_ratio w)
           = Inr (groups_of (Some t) cum)"
proof -
  have n: "nrows (heap w ! df) = length cum"
    using wf_frame_length[OF assms(2,3)] by simp
  show ?thesis
  proof (cases "cum = []")
    case True
    then show ?thesis
      using assms(1) n
      by (simp add: assign_groups_threshold_def copy_deep_def resolve_threshold_def
          nth_append groups_of_def assign_loop_def)
  next
    case False
    then show ?thesis
      using assms(1,3) n
      by (simp add: assign_groups_threshold_def copy_deep_def resolve_threshold_def
          nth_append groups_of_def split: prod.splits)
  qed
qed

lemma span_unique:
  fixes s e s' e' n :: nat
  assumes "s \<le> e" "e < n" "s' \<le> e'" "e' < n"
    and a: "\<forall>i<n. P i \<longleftrightarrow> s \<le> i \<and> i \<le> e"
    and b: "\<forall>i<n. P i \<longleftrightarrow> s' \<le> i \<and> i \<le> e'"
  shows "s = s' \<and> e = e'"
proof -
  have sn: "s < n" using assms(1,2) by (rule le_less_trans)
  have s'n: "s' < n" using assms(3,4) by (rule le_less_trans)
  have "P s" using a sn assms(1) by simp
  then have 1: "s' \<le> s" using b sn by auto
  have "P e" using a assms(1,2) by simp
  then have 2: "e \<le> e'" using b assms(2) by auto
  have "P s'" using b s'n assms(3) by simp
  then have 3: "s \<le> s'" using a s'n by auto
  have "P e'" using b assms(3,4) by simp
  then have 4: "e' \<le> e" using a assms(4) by auto
  show ?thesis using 1 2 3 4 by simp
qed

lemma groups_of_spans:
  assumes "assign_loop (Some t) (length cum) cum = (col, gs, g, r)"
  shows "length gs = length cum" "r \<le> length cum"
    and "\<forall>i. r \<le> i \<and> i < length cum \<longrightarrow> gs ! i = None"
    and "\<forall>i<r. \<exists>j<g. gs ! i = Some j"
    and "\<forall>i. r \<le> i \<and> i < length cum \<longrightarrow> rebased cum r i < t"
    and "\<forall>j<g. \<exists>s e. e < r \<and> group_span t cum gs j s e"
    and "\<forall>i i' a b. i \<le> i' \<and> i' < length cum \<and> gs ! i = Some a \<and> gs ! i' = Some b \<longrightarrow> a \<le> b"
    and "r = 0 \<longrightarrow> g = 0" and "0 < r \<longrightarrow> 0 < g \<and> gs ! (r - 1) = Some (g - 1)"
proof -
  have "loop_inv t cum (length cum) (col, gs, g, r)"
    using assign_loop_inv[of t cum] assms by simp
  then have b: "inv_basic t cum (length cum) (col, gs, g, r)"
    and i: "inv_groups t cum (col, gs, g, r)"
    by (simp_all add: loop_inv_def)
  from b show "length gs = length cum" by (simp add: inv_basic_def)
  from b show "r \<le> length cum" by (simp add: inv_basic_def)
  from b show "\<forall>i. r \<le> i \<and> i < length cum \<longrightarrow> gs ! i = None" by (simp add: inv_basic_def)
  from b show "\<forall>i<r. \<exists>j<g. gs ! i = Some j" by (simp add: inv_basic_def)
  from b show "\<forall>i. r \<le> i \<and> i < length cum \<longrightarrow> rebased cum r i < t" by (simp add: inv_basic_def)
  from i show "\<forall>j<g. \<exists>s e. e < r \<and> group_span t cum gs j s e" by (simp add: inv_groups_def)
  from i show "\<forall>i i' a b. i \<le> i' \<and> i' < length cum \<and> gs ! i = Some a \<and> gs ! i' = Some b \<longrightarrow> a \<le> b"
    by (simp add: inv_groups_def)
  from b show "r = 0 \<longrightarrow> g = 0" by (simp add: inv_basic_def)
  from b show "0 < r \<longrightarrow> 0 < g \<and> gs ! (r - 1) = Some (g - 1)" by (simp add: inv_basic_def)
qed

lemmas frame_eval = get_col_def set_col_def nrows_def wf_frame_def columns_def copy_deep_def
  store_col_def print_def
lemmas loop_eval = assign_groups_threshold_def resolve_threshold_def assign_loop_def ge_th_def
  set_slice_def upt_rec Let_def

lemmas sample_eval = sample_bar_def POSSIBLE_BAR_TYPES_def get_tick_bar_def get_volume_bar_def
  get_dollar_bar_def get_bar_def cumsum_def groupby_agg_def group_keys_def group_rows_def
  agg_bar_def pick_def

lemma W3_no_group: "''group'' \<notin> set (columns (heap W3 ! 0))"
  by (simp add: W3_def columns_def)

lemma W3_groups:
  "fst (assign_groups_threshold 0 (Fixed 2) ''ticks'' ''cum_ticks'' (- 2) (1 / 50) W3)
     = Inr [Some 0, Some 0, None]"
  by (simp add: W3_def frame_eval loop_eval)

section \<open>The pass of the specification\<close>

lemma loop_inv_prefix:
  assumes "k \<le> length cum"
  shows "loop_inv t cum k (foldl (loop_body (Some t)) (cum, replicate (length cum) None, 0, 0) [0..<k])"
proof (rule foldl_upt_inv)
  show "loop_inv t cum 0 (cum, replicate (length cum) None, 0, 0)"
    by (simp add: loop_inv_def inv_basic_init inv_groups_init)
next
  fix i s assume "i < k" "loop_inv t cum i s"
  then show "loop_inv t cum (Suc i) (loop_body (Some t) s i)"
    using assms by (simp add: loop_inv_def inv_basic_step inv_groups_step)
qed

lemma spec_rel_step:
  assumes rel: "spec_rel cum ss st" and b: "inv_basic t cum k st" and k: "k < length cum"
  shows "spec_rel cum (spec_step t cum ss k) (loop_body (Some t) st k)"
proof -
  obtain col gs g r where st: "st = (col, gs, g, r)" by (cases st) auto
  obtain out g' start bl where ss: "ss = (out, g', start, bl)" by (cases ss) auto
  from b st have rk: "r \<le> k" and len: "length gs = length cum"
    and col: "col = map (\<lambda>x. x - baseline_before cum r) cum"
    by (simp_all add: inv_basic_def)
  from rel st ss have g': "g' = g" and start: "start = r" and bl: "bl = baseline_before cum r"
    and lout: "length out = length cum" and agree: "\<forall>i<r. gs ! i = Some (out ! i)"
    by (simp_all add: spec_rel_def)
  have colk: "col ! k = cum ! k - baseline_before cum r"
    using col k by simp
  show ?thesis
  proof (cases "t \<le> cum ! k - baseline_before cum r")
    case False
    then have "loop_body (Some t) st k = st" "spec_step t cum ss k = ss"
      by (simp_all add: st ss ge_th_def colk bl)
    then show ?thesis using rel by simp
  next
    case True
    have e1: "loop_body (Some t) st k =
        (map (\<lambda>x. x - col ! k) col, set_slice r (Suc k) (Some g) gs, Suc g, Suc k)"
      using True by (simp add: st ge_th_def colk Let_def)
    have e2: "spec_step t cum ss k = (set_slice r (Suc k) g out, Suc g, Suc k, cum ! k)"
      using True by (simp add: ss bl g' start Let_def)
    have "\<forall>i<Suc k. set_slice r (Suc k) (Some g) gs ! i = Some (set_slice r (Suc k) g out ! i)"
    proof (intro allI impI)
      fix i assume "i < Suc k"
      then have il: "i < length cum" using k by simp
      show "set_slice r (Suc k) (Some g) gs ! i = Some (set_slice r (Suc k) g out ! i)"
      proof (cases "r \<le> i")
        case True
        then show ?thesis using il len lout \<open>i < Suc k\<close> by (simp add: set_slice_nth)
      next
        case False
        then have "gs ! i = Some (out ! i)" using agree by simp
        then show ?thesis using False il len lout by (simp add: set_slice_nth)
      qed
    qed
    then show ?thesis
      unfolding e1 e2 spec_rel_def using lout by (simp add: baseline_before_def)
  qed
qed

lemma spec_rel_prefix:
  assumes "k \<le> length cum"
  shows "spec_rel cum (foldl (spec_step t cum) (replicate (length cum) 0, 0, 0, 0) [0..<k])
           (foldl (loop_body (Some t)) (cum, replicate (length cum) None, 0, 0) [0..<k])"
  using assms
proof (induction k)
  case 0
  show ?case by (simp add: spec_rel_def baseline_before_def)
next
  case (Suc k)
  then have k: "k < length cum" and kl: "k \<le> length cum" by simp_all
  have "inv_basic t cum k (foldl (loop_body (Some t)) (cum, replicate (length cum) None, 0, 0) [0..<k])"
    using loop_inv_prefix[OF kl, of t] by (simp add: loop_inv_def)
  then show ?case using spec_rel_step[OF Suc.IH[OF kl] _ k] by simp
qed

lemma spec_assign_groups_eq:
  assumes "assign_loop (Some t) (length cum) cum = (col, gs, g, r)"
  shows "spec_assign_groups cum t = map (\<lambda>x. case x of None \<Rightarrow> g | Some j \<Rightarrow> j) gs"
proof -
  obtain out g' start bl where
    ss: "foldl (spec_step t cum) (replicate (length cum) 0, 0, 0, 0) [0..<length cum] = (out, g', start, bl)"
    by (cases "foldl (spec_step t cum) (replicate (length cum) 0, 0, 0, 0) [0..<length cum]") auto
  have "spec_rel cum (out, g', start, bl) (col, gs, g, r)"
    using spec_rel_prefix[of "length cum" cum t] ss assms by (simp add: assign_loop_def)
  then have g': "g' = g" and start: "start = r"
    and lout: "length out = length cum" and agree: "\<forall>i<r. gs ! i = Some (out ! i)"
    by (simp_all add: spec_rel_def)
  note facts = groups_of_spans[OF assms]
  have "set_slice r (length cum) g out = map (\<lambda>x. case x of None \<Rightarrow> g | Some j \<Rightarrow> j) gs"
  proof (rule nth_equalityI)
    show "length (set_slice r (length cum) g out) = length (map (\<lambda>x. case x of None \<Rightarrow> g | Some j \<Rightarrow> j) gs)"
      using lout facts(1) by simp
  next
    fix i assume "i < length (set_slice r (length cum) g out)"
    then have il: "i < length cum" using lout by simp
    show "set_slice r (length cum) g out ! i = map (\<lambda>x. case x of None \<Rightarrow> g | Some j \<Rightarrow> j) gs ! i"
    proof (cases "r \<le> i")
      case True
      then have "gs ! i = None" using facts(3) il by simp
      then show ?thesis using True il lout facts(1) by (simp add: set_slice_nth)
    next
      case False
      then have "gs ! i = Some (out ! i)" using agree by simp
      then show ?thesis using False il lout facts(1) by (simp add: set_slice_nth)
    qed
  qed
  then show ?thesis
    by (simp add: spec_assign_groups_def ss g' start)
qed

lemma group_keys_eq:
  assumes "assign_loop (Some t) (length cum) cum = (col, gs, g, r)"
  shows "group_keys gs = [0..<g]"
proof -
  note facts = groups_of_spans[OF assms]
  let ?ids = "concat (map (\<lambda>g. case g of None \<Rightarrow> [] | Some k \<Rightarrow> [k]) gs)"
  have mem: "k \<in> set ?ids \<longleftrightarrow> Some k \<in> set gs" for k
    by (auto split: option.splits)
  have "set ?ids = {0..<g}"
  proof (intro set_eqI iffI)
    fix k assume "k \<in> set ?ids"
    then have "Some k \<in> set gs" using mem by simp
    then obtain i where i: "i < length gs" "gs ! i = Some k" by (auto simp: in_set_conv_nth)
    then have "i < r" using facts(1,3) by (cases "r \<le> i") auto
    with facts(4) obtain j where "j < g" "gs ! i = Some j" by blast
    then show "k \<in> {0..<g}" using i by simp
  next
    fix k assume "k \<in> {0..<g}"
    then have "k < g" by simp
    with facts(6) obtain s e where "e < r" "group_span t cum gs k s e" by blast
    then have "e < length gs" "gs ! e = Some k" using facts(1) by (auto simp: group_span_def)
    then have "Some k \<in> set gs" by (auto simp: in_set_conv_nth)
    then show "k \<in> set ?ids" using mem by simp
  qed
  then have "sort (remdups ?ids) = [0..<g]"
    by (simp add: sorted_list_of_set_sort_remdups[symmetric])
  then show ?thesis by (simp add: group_keys_def)
qed

section \<open>Frames and the samplers\<close>

lemma get_col_set_col:
  "get_col (set_col fr c v) c' = (if c' = c then Inr v else get_col fr c')"
  by (simp add: get_col_def set_col_def update_conv')

lemma get_col_in_columns:
  "c \<in> set (columns fr) \<Longrightarrow> \<exists>v. get_col fr c = Inr v"
  by (cases "map_of fr c") (auto simp: get_col_def columns_def map_of_eq_None_iff)

lemma set_update_subset: "set (AList.update k v al) \<subseteq> insert (k, v) (set al)"
  by (induction al) auto

lemma set_col_wf:
  assumes "wf_frame fr" "fr \<noteq> []" "length v = nrows fr"
  shows "wf_frame (set_col fr c v)" "nrows (set_col fr c v) = nrows fr" "set_col fr c v \<noteq> []"
proof -
  obtain c0 v0 rest where fr: "fr = (c0, v0) # rest" using assms(2) by (cases fr) auto
  show n: "nrows (set_col fr c v) = nrows fr"
    using assms(3) by (simp add: fr set_col_def nrows_def)
  show "set_col fr c v \<noteq> []" by (simp add: fr set_col_def)
  have "set (AList.update c v fr) \<subseteq> insert (c, v) (set fr)"
    by (rule set_update_subset)
  then show "wf_frame (set_col fr c v)"
    using assms(1,3) n unfolding wf_frame_def list_all_iff set_col_def[symmetric]
    by (auto simp: set_col_def)
qed

lemma length_cumsum_from: "length (cumsum_from a xs) = length xs"
  by (induction xs arbitrary: a) simp_all

lemma length_cumsum [simp]: "length (cumsum xs) = length xs"
  by (simp add: cumsum_def length_cumsum_from)

lemma assign_groups_fixed_full:
  assumes "df < length (heap w)" "wf_frame (heap w ! df)" "get_col (heap w ! df) cum_col = Inr cum"
  shows "\<exists>fr'. assign_groups_threshold df (Fixed t) tgt_col cum_col rounding auto_ratio w
           = (Inr (groups_of (Some t) cum), w\<lparr>heap := heap w @ [fr']\<rparr>)"
proof -
  have n: "nrows (heap w ! df) = length cum"
    using wf_frame_length[OF assms(2,3)] by simp
  show ?thesis
  proof (cases "cum = []")
    case True
    then have "assign_groups_threshold df (Fixed t) tgt_col cum_col rounding auto_ratio w
           = (Inr (groups_of (Some t) cum), w\<lparr>heap := heap w @ [heap w ! df]\<rparr>)"
      using assms(1) n
      by (simp add: assign_groups_threshold_def copy_deep_def resolve_threshold_def
          nth_append groups_of_def assign_loop_def)
    then show ?thesis by blast
  next
    case False
    obtain col gs g r where loop: "assign_loop (Some t) (length cum) cum = (col, gs, g, r)"
      by (cases "assign_loop (Some t) (length cum) cum") auto
    have "assign_groups_threshold df (Fixed t) tgt_col cum_col rounding auto_ratio w
           = (Inr (groups_of (Some t) cum), w\<lparr>heap := heap w @ [set_col (heap w ! df) cum_col col]\<rparr>)"
      using False assms(1,3) n loop
      by (simp add: assign_groups_threshold_def copy_deep_def resolve_threshold_def
          nth_append groups_of_def store_col_def)
    then show ?thesis by blast
  qed
qed

lemma get_bar_fixed:
  assumes df: "df < length (heap w)" and wf: "wf_frame (heap w ! df)" and ne: "heap w ! df \<noteq> []"
    and xs: "get_col (heap w ! df) tgt_col = Inr xs"
  shows "fst (get_bar tgt_col cum_col df (Fixed t) rounding auto_ratio w)
           = groupby_agg (set_col (heap w ! df) cum_col (cumsum xs)) (groups_of (Some t) (cumsum xs))"
proof -
  let ?fr = "set_col (heap w ! df) cum_col (cumsum xs)"
  let ?w1 = "store_col df cum_col (cumsum xs) w"
  have len: "length (cumsum xs) = nrows (heap w ! df)"
    using wf_frame_length[OF wf xs] by simp
  have h1: "heap ?w1 ! df = ?fr" "df < length (heap ?w1)"
    using df by (simp_all add: store_col_def)
  have wf1: "wf_frame (heap ?w1 ! df)" using set_col_wf(1)[OF wf ne len] h1 by simp
  have c1: "get_col (heap ?w1 ! df) cum_col = Inr (cumsum xs)"
    using h1 by (simp add: get_col_set_col)
  from assign_groups_fixed_full[OF h1(2) wf1 c1, of t tgt_col rounding auto_ratio]
  obtain fr' where a: "assign_groups_threshold df (Fixed t) tgt_col cum_col rounding auto_ratio ?w1
      = (Inr (groups_of (Some t) (cumsum xs)), ?w1\<lparr>heap := heap ?w1 @ [fr']\<rparr>)" by blast
  show ?thesis
    using xs a h1 by (simp add: get_bar_def Let_def nth_append)
qed

lemma valid_table_cols:
  assumes "valid_table fr"
  obtains dt price vol where "get_col fr ''date_time'' = Inr dt" "get_col fr ''price'' = Inr price"
    "get_col fr ''volume'' = Inr vol" "length dt = nrows fr" "length price = nrows fr"
    "length vol = nrows fr" "fr \<noteq> []" "wf_frame fr"
proof -
  from assms have wf: "wf_frame fr" and c: "''date_time'' \<in> set (columns fr)"
    "''price'' \<in> set (columns fr)" "''volume'' \<in> set (columns fr)"
    by (simp_all add: valid_table_def)
  from get_col_in_columns[OF c(1)] obtain dt where g1: "get_col fr ''date_time'' = Inr dt" ..
  from get_col_in_columns[OF c(2)] obtain price where g2: "get_col fr ''price'' = Inr price" ..
  from get_col_in_columns[OF c(3)] obtain vol where g3: "get_col fr ''volume'' = Inr vol" ..
  note g = g1 g2 g3
  have "fr \<noteq> []" using c(1) by (auto simp: columns_def)
  then show ?thesis
    using that[OF g] wf_frame_length[OF wf g(1)] wf_frame_length[OF wf g(2)]
      wf_frame_length[OF wf g(3)] wf by simp
qed

lemma sample_bar_fixed:
  assumes df: "df < length (heap w)" and v: "valid_table (heap w ! df)"
    and bt: "bar_type \<in> set POSSIBLE_BAR_TYPES"
    and dt: "get_col (heap w ! df) ''date_time'' = Inr dt"
    and price: "get_col (heap w ! df) ''price'' = Inr price"
    and vol: "get_col (heap w ! df) ''volume'' = Inr vol"
  shows "fst (sample_bar df bar_type (Fixed t) ''date_time'' ''price'' ''volume'' rounding auto_ratio w)
     = Inr (map (\<lambda>k. agg_bar dt price (replicate (length price) 1) vol (map2 (*) price vol)
                        (group_rows (groups_of (Some t) (cumsum (measure_of bar_type price vol))) k))
              (group_keys (groups_of (Some t) (cumsum (measure_of bar_type price vol)))))"
proof -
  let ?fr = "heap w ! df"
  let ?n = "nrows ?fr"
  let ?aux = "length (heap w)"
  let ?f1 = "set_col ?fr ''ticks'' (replicate ?n 1)"
  let ?f2 = "set_col ?f1 ''dollar'' (map2 (*) price vol)"
  let ?w3 = "w\<lparr>heap := heap w @ [?f2]\<rparr>"
  from v have wf: "wf_frame ?fr" and cols: "''date_time'' \<in> set (columns ?fr)"
    "''price'' \<in> set (columns ?fr)" "''volume'' \<in> set (columns ?fr)"
    by (simp_all add: valid_table_def)
  have ne: "?fr \<noteq> []" using cols(1) by (auto simp: columns_def)
  have lp: "length price = ?n" and lv: "length vol = ?n"
    using wf_frame_length[OF wf price] wf_frame_length[OF wf vol] by simp_all
  have wf1: "wf_frame ?f1" "nrows ?f1 = ?n" "?f1 \<noteq> []"
    using set_col_wf[OF wf ne, of "replicate ?n 1" "''ticks''"] by simp_all
  have wf2: "wf_frame ?f2" "nrows ?f2 = ?n" "?f2 \<noteq> []"
    using set_col_wf[OF wf1(1) wf1(3), of "map2 (*) price vol" "''dollar''"] wf1(2) lp lv
    by simp_all
  have h3: "?aux < length (heap ?w3)" "heap ?w3 ! ?aux = ?f2" by simp_all
  have step: "sample_bar df bar_type (Fixed t) ''date_time'' ''price'' ''volume'' rounding auto_ratio w
      = (if bar_type = ''tick'' then get_tick_bar ?aux (Fixed t) rounding auto_ratio ?w3
         else if bar_type = ''volume'' then get_volume_bar ?aux (Fixed t) rounding auto_ratio ?w3
         else get_dollar_bar ?aux (Fixed t) rounding auto_ratio ?w3)"
    using cols bt df price vol
    by (simp add: sample_bar_def copy_deep_def store_col_def Let_def nth_append
        get_col_set_col)
  have agg: "groupby_agg (set_col ?f2 c xs) gs
      = Inr (map (\<lambda>k. agg_bar dt price (replicate (length price) 1) vol (map2 (*) price vol)
                        (group_rows gs k)) (group_keys gs))"
    if "c \<noteq> ''date_time''" "c \<noteq> ''price''" "c \<noteq> ''ticks''" "c \<noteq> ''volume''" "c \<noteq> ''dollar''"
    for c xs gs
    using that dt price vol lp by (simp add: groupby_agg_def get_col_set_col)
  have fin: "fst (get_bar tgt c ?aux (Fixed t) rounding auto_ratio ?w3)
      = Inr (map (\<lambda>k. agg_bar dt price (replicate (length price) 1) vol (map2 (*) price vol)
                        (group_rows (groups_of (Some t) (cumsum xs)) k))
              (group_keys (groups_of (Some t) (cumsum xs))))"
    if "c \<noteq> ''date_time''" "c \<noteq> ''price''" "c \<noteq> ''ticks''" "c \<noteq> ''volume''" "c \<noteq> ''dollar''"
      and x: "get_col ?f2 tgt = Inr xs"
    for c tgt xs
  proof -
    have a: "wf_frame (heap ?w3 ! ?aux)" "heap ?w3 ! ?aux \<noteq> []"
      "get_col (heap ?w3 ! ?aux) tgt = Inr xs"
      using wf2 x by simp_all
    have "fst (get_bar tgt c ?aux (Fixed t) rounding auto_ratio ?w3)
        = groupby_agg (set_col ?f2 c (cumsum xs)) (groups_of (Some t) (cumsum xs))"
      using get_bar_fixed[OF h3(1) a, of c t rounding auto_ratio] by simp
    also have "\<dots> = Inr (map (\<lambda>k. agg_bar dt price (replicate (length price) 1) vol (map2 (*) price vol)
                        (group_rows (groups_of (Some t) (cumsum xs)) k))
              (group_keys (groups_of (Some t) (cumsum xs))))"
      by (rule agg[OF that(1-5)])
    finally show ?thesis .
  qed
  have x1: "get_col ?f2 ''ticks'' = Inr (replicate (length price) 1)"
    using lp by (simp add: get_col_set_col)
  have x2: "get_col ?f2 ''volume'' = Inr vol"
    using vol by (simp add: get_col_set_col)
  have x3: "get_col ?f2 ''dollar'' = Inr (map2 (*) price vol)"
    by (simp add: get_col_set_col)
  consider "bar_type = ''tick''" | "bar_type = ''volume''" | "bar_type = ''dollar''"
    using bt by (auto simp: POSSIBLE_BAR_TYPES_def)
  then show ?thesis
  proof cases
    case 1
    have m: "measure_of bar_type price vol = replicate (length price) 1"
      using 1 by (simp add: measure_of_def)
    have s1: "sample_bar df bar_type (Fixed t) ''date_time'' ''price'' ''volume'' rounding auto_ratio w
        = get_bar ''ticks'' ''cum_ticks'' ?aux (Fixed t) rounding auto_ratio ?w3"
      unfolding step get_tick_bar_def using 1 by simp
    show ?thesis unfolding s1 m by (rule fin[OF _ _ _ _ _ x1]) simp_all
  next
    case 2
    have m: "measure_of bar_type price vol = vol"
      using 2 by (simp add: measure_of_def)
    have s1: "sample_bar df bar_type (Fixed t) ''date_time'' ''price'' ''volume'' rounding auto_ratio w
        = get_bar ''volume'' ''cum_vol'' ?aux (Fixed t) rounding auto_ratio ?w3"
      unfolding step get_volume_bar_def using 2 by simp
    show ?thesis unfolding s1 m by (rule fin[OF _ _ _ _ _ x2]) simp_all
  next
    case 3
    have m: "measure_of bar_type price vol = map2 (*) price vol"
      using 3 by (simp add: measure_of_def)
    have s1: "sample_bar df bar_type (Fixed t) ''date_time'' ''price'' ''volume'' rounding auto_ratio w
        = get_bar ''dollar'' ''cum_dol'' ?aux (Fixed t) rounding auto_ratio ?w3"
      unfolding step get_dollar_bar_def using 3 by simp
    show ?thesis unfolding s1 m by (rule fin[OF _ _ _ _ _ x3]) simp_all
  qed
qed

lemma assign_groups_loop:
  assumes "df < length (heap w)" and "wf_frame (heap w ! df)"
    and "get_col (heap w ! df) cum_col = Inr cum"
    and "fst (assign_groups_threshold df (Fixed t) tgt_col cum_col rounding auto_ratio w) = Inr groups"
  obtains col g r where "assign_loop (Some t) (length cum) cum = (col, groups, g, r)"
proof -
  obtain col gs g r where loop: "assign_loop (Some t) (length cum) cum = (col, gs, g, r)"
    by (cases "assign_loop (Some t) (length cum) cum") auto
  have "groups = gs"
    using assms(4) assign_groups_fixed[OF assms(1-3), of t tgt_col rounding auto_ratio] loop
    by (simp add: groups_of_def)
  then show ?thesis using that loop by simp
qed

lemmas spec_eval = spec_assign_groups_def set_slice_def upt_rec Let_def

section \<open>Cumulative sums and the rows of a bar\<close>

lemma cumsum_from_nth:
  "i < length xs \<Longrightarrow> cumsum_from a xs ! i = a + sum_list (take (Suc i) xs)"
proof (induction xs arbitrary: a i)
  case Nil
  then show ?case by simp
next
  case (Cons x xs)
  then show ?case by (cases i) (simp_all add: add.assoc)
qed

lemma cumsum_nth: "i < length xs \<Longrightarrow> cumsum xs ! i = sum_list (take (Suc i) xs)"
  by (simp add: cumsum_def cumsum_from_nth)

lemma baseline_before_cumsum:
  "s \<le> length xs \<Longrightarrow> baseline_before (cumsum xs) s = sum_list (take s xs)"
  by (cases s) (simp_all add: baseline_before_def cumsum_nth)

lemma rebased_cumsum:
  assumes "s \<le> i" "i < length xs"
  shows "rebased (cumsum xs) s i = sum_list (take (Suc i - s) (drop s xs))"
proof -
  have "take (Suc i) xs = take s xs @ take (Suc i - s) (drop s xs)"
    using assms by (metis le_Suc_eq le_add_diff_inverse take_add)
  then have "sum_list (take (Suc i) xs) = sum_list (take s xs) + sum_list (take (Suc i - s) (drop s xs))"
    by simp
  then show ?thesis
    using assms by (simp add: rebased_def cumsum_nth baseline_before_cumsum)
qed

lemma rebased_cumsum_nonneg:
  assumes "s \<le> i" "i < length xs" "\<forall>x\<in>set xs. 0 \<le> x"
  shows "0 \<le> rebased (cumsum xs) s i"
proof -
  have "set (take (Suc i - s) (drop s xs)) \<subseteq> set xs"
    by (meson set_drop_subset set_take_subset subset_trans)
  then have "\<forall>x\<in>set (take (Suc i - s) (drop s xs)). 0 \<le> x" using assms(3) by blast
  then have "0 \<le> sum_list (take (Suc i - s) (drop s xs))"
    by (simp add: sum_list_nonneg)
  then show ?thesis
    unfolding rebased_cumsum[OF assms(1,2)] .
qed

lemma rebased_cumsum_ticks:
  assumes "s \<le> i" "i < n"
  shows "rebased (cumsum (replicate n 1)) s i = of_nat (Suc i - s)"
  using assms by (simp add: rebased_cumsum sum_list_replicate min_def)

lemma filter_interval:
  assumes "e < n"
  shows "filter (\<lambda>i. s \<le> i \<and> i \<le> e) [0..<n] = [s..<Suc e]"
proof (rule sorted_distinct_set_unique)
  show "set (filter (\<lambda>i. s \<le> i \<and> i \<le> e) [0..<n]) = set [s..<Suc e]"
    using assms by auto
next
  show "sorted (filter (\<lambda>i. s \<le> i \<and> i \<le> e) [0..<n])" by (rule sorted_wrt_filter) simp
  show "distinct (filter (\<lambda>i. s \<le> i \<and> i \<le> e) [0..<n])" by simp
  show "sorted [s..<Suc e]" by (rule sorted_upt)
  show "distinct [s..<Suc e]" by (rule distinct_upt)
qed

lemma group_rows_span:
  assumes "group_span t cum gs k s e" "length gs = length cum"
  shows "group_rows gs k = [s..<Suc e]"
proof -
  from assms have e: "e < length cum"
    and occ: "\<forall>i<length cum. gs ! i = Some k \<longleftrightarrow> s \<le> i \<and> i \<le> e"
    by (simp_all add: group_span_def)
  have "filter (\<lambda>i. gs ! i = Some k) [0..<length cum] = filter (\<lambda>i. s \<le> i \<and> i \<le> e) [0..<length cum]"
    by (rule filter_cong) (use occ in auto)
  then show ?thesis
    using filter_interval[OF e] assms(2) by (simp add: group_rows_def)
qed

lemma group_rows_sum:
  assumes "assign_loop (Some t) (length cum) cum = (col, gs, g, r)"
  shows "sum_list (map (\<lambda>k. length (group_rows gs k)) [0..<g]) = r"
proof -
  note facts = groups_of_spans[OF assms]
  let ?A = "\<lambda>k. {i. i < length cum \<and> gs ! i = Some k}"
  have len: "length (group_rows gs k) = card (?A k)" for k
  proof -
    have "{i. i < length cum \<and> gs ! ([0..<length cum] ! i) = Some k} = ?A k"
      by auto
    then show ?thesis
      using facts(1) by (simp add: group_rows_def length_filter_conv_card)
  qed
  have "sum_list (map (\<lambda>k. length (group_rows gs k)) [0..<g]) = (\<Sum>k\<in>{0..<g}. card (?A k))"
    by (simp add: len sum_list_distinct_conv_sum_set)
  also have "\<dots> = card (\<Union>k\<in>{0..<g}. ?A k)"
    by (rule card_UN_disjoint[symmetric]) auto
  also have "(\<Union>k\<in>{0..<g}. ?A k) = {i. i < r}"
  proof (intro set_eqI iffI)
    fix i assume "i \<in> (\<Union>k\<in>{0..<g}. ?A k)"
    then obtain k where "i < length cum" "gs ! i = Some k" by auto
    then have "i < r" using facts(3) by (cases "r \<le> i") auto
    then show "i \<in> {i. i < r}" by simp
  next
    fix i assume "i \<in> {i. i < r}"
    then have ir: "i < r" by simp
    with facts(4) obtain k where "k < g" "gs ! i = Some k" by blast
    then show "i \<in> (\<Union>k\<in>{0..<g}. ?A k)" using ir facts(2) by auto
  qed
  finally show ?thesis by simp
qed

lemma pick_ticks:
  assumes "\<forall>i\<in>set rows. i < n"
  shows "sum_list (pick (replicate n 1) rows) = of_nat (length rows)"
proof -
  have "pick (replicate n 1) rows = map (\<lambda>i. 1) rows"
    unfolding pick_def by (rule map_cong) (use assms in auto)
  then show ?thesis by (simp add: sum_list_triv)
qed

lemma group_rows_bound: "\<forall>i\<in>set (group_rows gs k). i < length gs"
  by (simp add: group_rows_def)

lemma bar_ticks_agg:
  assumes "length gs = n"
  shows "bar_ticks (agg_bar dt price (replicate n 1) vol dollar (group_rows gs k))
           = of_nat (length (group_rows gs k))"
  using pick_ticks[of "group_rows gs k" n] group_rows_bound[of gs k] assms
  by (simp add: agg_bar_def)

section \<open>The bars of a fixed threshold\<close>

lemma length_measure_of:
  "length vol = length price \<Longrightarrow> length (measure_of bar_type price vol) = length price"
  by (simp add: measure_of_def)

lemma sample_bar_loop:
  assumes df: "df < length (heap w)" and v: "valid_table (heap w ! df)"
    and bt: "bar_type \<in> set POSSIBLE_BAR_TYPES"
    and price: "get_col (heap w ! df) ''price'' = Inr price"
    and vol: "get_col (heap w ! df) ''volume'' = Inr vol"
    and loop: "assign_loop (Some t) (nrows (heap w ! df)) (cumsum (measure_of bar_type price vol))
                 = (col, gs, g, r)"
  obtains bars where
    "fst (sample_bar df bar_type (Fixed t) ''date_time'' ''price'' ''volume'' rounding auto_ratio w)
       = Inr bars"
    "length bars = g"
    "map bar_ticks bars = map (\<lambda>k. of_nat (length (group_rows gs k))) [0..<g]"
    "length (cumsum (measure_of bar_type price vol)) = nrows (heap w ! df)"
    "assign_loop (Some t) (length (cumsum (measure_of bar_type price vol)))
       (cumsum (measure_of bar_type price vol)) = (col, gs, g, r)"
proof -
  let ?fr = "heap w ! df"
  let ?cum = "cumsum (measure_of bar_type price vol)"
  from v have wf: "wf_frame ?fr" and c: "''date_time'' \<in> set (columns ?fr)"
    by (simp_all add: valid_table_def)
  from get_col_in_columns[OF c] obtain dt where dt: "get_col ?fr ''date_time'' = Inr dt" ..
  have lp: "length price = nrows ?fr" and lv: "length vol = nrows ?fr"
    using wf_frame_length[OF wf price] wf_frame_length[OF wf vol] by simp_all
  have lc: "length ?cum = nrows ?fr"
    using length_measure_of[of vol price bar_type] lp lv by simp
  have loop': "assign_loop (Some t) (length ?cum) ?cum = (col, gs, g, r)"
    using loop lc by simp
  have gs: "groups_of (Some t) ?cum = gs" using loop' by (simp add: groups_of_def)
  have keys: "group_keys gs = [0..<g]" by (rule group_keys_eq[OF loop'])
  have lgs: "length gs = length price"
    using groups_of_spans(1)[OF loop'] lc lp by simp
  let ?bars = "map (\<lambda>k. agg_bar dt price (replicate (length price) 1) vol (map2 (*) price vol)
                        (group_rows gs k)) [0..<g]"
  have res: "fst (sample_bar df bar_type (Fixed t) ''date_time'' ''price'' ''volume'' rounding auto_ratio w)
       = Inr ?bars"
    using sample_bar_fixed[OF df v bt dt price vol, of t rounding auto_ratio] gs keys by simp
  have ticks: "map bar_ticks ?bars = map (\<lambda>k. of_nat (length (group_rows gs k))) [0..<g]"
    using bar_ticks_agg[OF lgs] by simp
  show ?thesis
    by (rule that[OF res _ ticks lc loop']) simp
qed

lemma T3_valid:
  "0 < length (heap T3)" "valid_table (heap T3 ! 0)"
  "get_col (heap T3 ! 0) ''price'' = Inr [10, 11, 9]"
  "get_col (heap T3 ! 0) ''volume'' = Inr [1, 1, 1]"
  "nrows (heap T3 ! 0) = 3"
  by (simp_all add: T3_def valid_table_def frame_eval)

lemma tick_in_types: "''tick'' \<in> set POSSIBLE_BAR_TYPES"
  by (simp add: POSSIBLE_BAR_TYPES_def)


lemma E0_valid:
  "0 < length (heap E0)" "valid_table (heap E0 ! 0)"
  "get_col (heap E0 ! 0) ''price'' = Inr []"
  "get_col (heap E0 ! 0) ''volume'' = Inr []"
  "nrows (heap E0 ! 0) = 0"
  by (simp_all add: E0_def valid_table_def frame_eval)

section \<open>The effects of a call\<close>

lemma emitted_refl: "emitted th w w"
  unfolding emitted_def by (rule exI[of _ "[]"]) (simp split: threshold.splits)

lemma resolve_threshold_effects:
  assumes "resolve_threshold df th tgt_col rounding auto_ratio w = (res, w')"
  shows "heap w' = heap w" "emitted th w w'"
proof -
  show "heap w' = heap w"
    using assms
    by (auto simp: resolve_threshold_def print_def split: threshold.splits sum.splits)
  show "emitted th w w'"
  proof (cases th)
    case (Fixed t)
    then have "w' = w" using assms by (simp add: resolve_threshold_def)
    then show ?thesis by (simp add: emitted_refl)
  next
    case Auto
    show ?thesis
    proof (cases "get_auto_threshold (heap w ! df) tgt_col rounding auto_ratio")
      case (Inl e)
      then have "w' = w" using assms Auto by (simp add: resolve_threshold_def)
      then show ?thesis by (simp add: emitted_refl)
    next
      case (Inr x)
      then have "stdout w' = stdout w @ [x]"
        using assms Auto by (auto simp: resolve_threshold_def print_def)
      then show ?thesis
        unfolding emitted_def using Auto by (intro exI[of _ "[x]"]) simp
    qed
  qed
qed

lemma assign_groups_effects:
  assumes "assign_groups_threshold df th tgt_col cum_col rounding auto_ratio w = (res, w')"
  shows "take (length (heap w)) (heap w') = heap w" "emitted th w w'"
proof -
  let ?w1 = "w\<lparr>heap := heap w @ [heap w ! df]\<rparr>"
  obtain r2 w2 where r: "resolve_threshold df th tgt_col rounding auto_ratio ?w1 = (r2, w2)"
    by (cases "resolve_threshold df th tgt_col rounding auto_ratio ?w1") auto
  note e = resolve_threshold_effects[OF r]
  have h2: "heap w2 = heap w @ [heap w ! df]" using e(1) by simp
  have s2: "emitted th w w2" using e(2) by (simp add: emitted_def)
  have "heap w' = heap w2 \<or> (\<exists>c v. w' = store_col (length (heap w)) c v w2)"
    using assms r
    by (auto simp: assign_groups_threshold_def copy_deep_def Let_def
        split: sum.splits prod.splits if_splits)
  then have "take (length (heap w)) (heap w') = heap w \<and> stdout w' = stdout w2"
    using h2 assms r
    by (auto simp: assign_groups_threshold_def copy_deep_def Let_def store_col_def
        split: sum.splits prod.splits if_splits)
  then show "take (length (heap w)) (heap w') = heap w" "emitted th w w'"
    using s2 by (simp_all add: emitted_def)
qed

lemma get_bar_effects:
  assumes "get_bar tgt_col cum_col df th rounding auto_ratio w = (res, w')"
    and "n \<le> df" "n \<le> length (heap w)"
  shows "take n (heap w') = take n (heap w) \<and> emitted th w w'"
proof -
  show ?thesis
  proof (cases "get_col (heap w ! df) tgt_col")
    case (Inl e)
    then have "w' = w" using assms(1) by (simp add: get_bar_def)
    then show ?thesis
      by (simp add: emitted_refl)
  next
    case (Inr xs)
    let ?w1 = "store_col df cum_col (cumsum xs) w"
    obtain r2 w2 where
      a: "assign_groups_threshold df th tgt_col cum_col rounding auto_ratio ?w1 = (r2, w2)"
      by (cases "assign_groups_threshold df th tgt_col cum_col rounding auto_ratio ?w1") auto
    have w': "w' = w2"
      using assms(1) Inr a by (auto simp: get_bar_def Let_def split: sum.splits)
    note e = assign_groups_effects[OF a]
    have l1: "length (heap ?w1) = length (heap w)" by (simp add: store_col_def)
    have "take n (heap w2) = take n (take (length (heap ?w1)) (heap w2))"
      using assms(3) l1 by (simp add: min_def)
    also have "\<dots> = take n (heap ?w1)" using e(1) by simp
    also have "\<dots> = take n (heap w)" using assms(2) by (simp add: store_col_def)
    finally have 1: "take n (heap w') = take n (heap w)" using w' by simp
    have 2: "emitted th w w'" using e(2) w' by (simp add: emitted_def store_col_def)
    show ?thesis using 1 2 by (rule conjI)
  qed
qed

lemma sample_bar_effects:
  assumes "sample_bar df bar_type th datetime_col price_col vol_col rounding auto_ratio w = (res, w')"
  shows "take (length (heap w)) (heap w') = heap w \<and> emitted th w w'"
proof -
  let ?aux = "length (heap w)"
  let ?w2 = "store_col ?aux ''ticks'' (replicate (nrows (heap w ! df)) 1) (w\<lparr>heap := heap w @ [heap w ! df]\<rparr>)"
  have h2: "take ?aux (heap ?w2) = heap w" "?aux \<le> length (heap ?w2)" "stdout ?w2 = stdout w"
    by (simp_all add: store_col_def)
  consider (same) "w' = w" | (w2) "w' = ?w2"
    | (bar) tgt cum price vol where
        "get_bar tgt cum ?aux th rounding auto_ratio
           (store_col ?aux ''dollar'' (map2 (*) price vol) ?w2) = (res, w')"
    using assms
    by (auto simp: sample_bar_def copy_deep_def Let_def get_tick_bar_def get_volume_bar_def
        get_dollar_bar_def nth_append split: if_splits sum.splits)
  then show ?thesis
  proof cases
    case same
    then show ?thesis
      by (simp add: emitted_refl)
  next
    case w2
    then show ?thesis
      using h2 emitted_refl[of th w] by (simp add: emitted_def)
  next
    case bar
    let ?w3 = "store_col ?aux ''dollar'' (map2 (*) price vol) ?w2"
    have h3: "take ?aux (heap ?w3) = heap w" "?aux \<le> length (heap ?w3)" "stdout ?w3 = stdout w"
      by (simp_all add: store_col_def)
    from get_bar_effects[OF bar order_refl h3(2)]
    have e: "take ?aux (heap w') = take ?aux (heap ?w3)" "emitted th ?w3 w'" by simp_all
    have 1: "take (length (heap w)) (heap w') = heap w" using e(1) h3(1) by simp
    have 2: "emitted th w w'" using e(2) h3(3) by (simp add: emitted_def)
    show ?thesis using 1 2 by (rule conjI)
  qed
qed

section \<open>The automatic threshold\<close>

lemma foldl_min_le: "foldl min (a::int) xs \<le> a \<and> (\<forall>x\<in>set xs. foldl min a xs \<le> x)"
proof (induction xs arbitrary: a)
  case Nil
  show ?case by simp
next
  case (Cons y ys)
  from Cons.IH[of "min a y"] show ?case by auto
qed

lemma foldl_max_ge: "(a::int) \<le> foldl max a xs \<and> (\<forall>x\<in>set xs. x \<le> foldl max a xs)"
proof (induction xs arbitrary: a)
  case Nil
  show ?case by simp
next
  case (Cons y ys)
  from Cons.IH[of "max a y"] show ?case by auto
qed

lemma first_last_day:
  assumes "d \<in> set days"
  shows "first_day days \<le> d" "d \<le> last_day days"
proof -
  from assms obtain y ys where days: "days = y # ys" by (cases days) auto
  show "first_day days \<le> d"
    using foldl_min_le[of y ys] assms by (auto simp: first_day_def days)
  show "d \<le> last_day days"
    using foldl_max_ge[of y ys] assms by (auto simp: last_day_def days)
qed

lemma business_day_weekday: "business_day t mod 7 < 5"
proof -
  have "\<lfloor>t\<rfloor> mod 7 < 7" "0 \<le> \<lfloor>t\<rfloor> mod 7" by simp_all
  then show ?thesis
    unfolding business_day_def Let_def by (auto simp: mod_diff_left_eq[symmetric])
qed

lemma sum_bins:
  fixes ps :: "(int \<times> rat) list"
  assumes "distinct bins" "\<forall>p\<in>set ps. fst p \<in> set bins"
  shows "sum_list (map (\<lambda>b. sum_list (map snd (filter (\<lambda>dx. fst dx = b) ps))) bins)
           = sum_list (map snd ps)"
  using assms(2)
proof (induction ps)
  case Nil
  show ?case by simp
next
  case (Cons p ps)
  have one: "sum_list (map (\<lambda>b. if fst p = b then snd p else 0) bins) = snd p"
  proof -
    have "sum_list (map (\<lambda>b. if fst p = b then snd p else 0) bins)
        = (\<Sum>b\<in>set bins. if fst p = b then snd p else 0)"
      using assms(1) by (simp add: sum_list_distinct_conv_sum_set)
    also have "\<dots> = snd p" using Cons.prems by (simp add: sum.delta')
    finally show ?thesis .
  qed
  have "sum_list (map (\<lambda>b. sum_list (map snd (filter (\<lambda>dx. fst dx = b) (p # ps)))) bins)
      = sum_list (map (\<lambda>b. (if fst p = b then snd p else 0)
                            + sum_list (map snd (filter (\<lambda>dx. fst dx = b) ps))) bins)"
    by (rule arg_cong[where f = sum_list], rule map_cong) auto
  also have "\<dots> = snd p + sum_list (map snd ps)"
    using one Cons.IH Cons.prems by (simp add: sum_list_addf)
  finally show ?case by simp
qed

lemma distinct_business_days: "distinct (business_days a b)"
  by (simp add: business_days_def)

lemma resample_B_sum_total:
  assumes "length dt = length xs" "dt \<noteq> []"
  shows "sum_list (resample_B_sum dt xs) = sum_list xs"
    and "length (resample_B_sum dt xs)
           = length (business_days (first_day (map business_day dt)) (last_day (map business_day dt)))"
    and "resample_B_sum dt xs \<noteq> []"
proof -
  let ?days = "map business_day dt"
  let ?bins = "business_days (first_day ?days) (last_day ?days)"
  have mem: "d \<in> set ?bins" if "d \<in> set ?days" for d
  proof -
    from that obtain t where "d = business_day t" by auto
    then have "d mod 7 < 5" using business_day_weekday by simp
    then show ?thesis
      using first_last_day[OF that] by (simp add: business_days_def)
  qed
  have "\<forall>p\<in>set (zip ?days xs). fst p \<in> set ?bins"
  proof
    fix p assume "p \<in> set (zip ?days xs)"
    then have "fst p \<in> set ?days" by (metis in_set_zipE prod.collapse)
    then show "fst p \<in> set ?bins" by (rule mem)
  qed
  from sum_bins[OF distinct_business_days this]
  show "sum_list (resample_B_sum dt xs) = sum_list xs"
    using assms by (simp add: resample_B_sum_def Let_def)
  show "length (resample_B_sum dt xs) = length ?bins"
    using assms(2) by (simp add: resample_B_sum_def Let_def)
  have "?days \<noteq> []" using assms(2) by simp
  then have "hd ?days \<in> set ?days" by (rule hd_in_set)
  then have "?bins \<noteq> []" using mem by fastforce
  then show "resample_B_sum dt xs \<noteq> []"
    using assms(2) by (simp add: resample_B_sum_def Let_def)
qed

lemma rint_near: "\<bar>of_int (rint x) - x\<bar> \<le> 1 / 2"
proof -
  have "of_int \<lfloor>x\<rfloor> \<le> x" "x < of_int \<lfloor>x\<rfloor> + 1" by linarith+
  then show ?thesis
    unfolding rint_def Let_def by (auto simp: abs_le_iff)
qed

lemma rint_mono:
  assumes "x \<le> y"
  shows "rint x \<le> rint y"
proof -
  have f: "\<lfloor>x\<rfloor> \<le> \<lfloor>y\<rfloor>" using assms by (rule floor_mono)
  have bx: "of_int \<lfloor>x\<rfloor> \<le> x" "x < of_int \<lfloor>x\<rfloor> + 1" by linarith+
  have by': "of_int \<lfloor>y\<rfloor> \<le> y" "y < of_int \<lfloor>y\<rfloor> + 1" by linarith+
  have lo: "\<lfloor>y\<rfloor> \<le> rint y" and hi: "rint x \<le> \<lfloor>x\<rfloor> + 1"
    unfolding rint_def Let_def by auto
  show ?thesis
  proof (cases "\<lfloor>x\<rfloor> < \<lfloor>y\<rfloor>")
    case True
    then show ?thesis using lo hi by linarith
  next
    case False
    then have eq: "\<lfloor>x\<rfloor> = \<lfloor>y\<rfloor>" using f by simp
    have "x - of_int \<lfloor>y\<rfloor> \<le> y - of_int \<lfloor>y\<rfloor>" using assms by simp
    then show ?thesis
      unfolding rint_def Let_def eq by auto
  qed
qed

lemma pow10_pos: "0 < pow10 d"
  by (simp add: pow10_def)

lemma np_round_mono: "x \<le> y \<Longrightarrow> np_round x d \<le> np_round y d"
  unfolding np_round_def
  by (intro divide_right_mono) (simp_all add: rint_mono mult_right_mono pow10_pos less_imp_le)

lemma np_round_near: "\<bar>np_round x d - x\<bar> \<le> 1 / (2 * pow10 d)"
proof -
  let ?p = "pow10 d"
  have p: "0 < ?p" by (rule pow10_pos)
  have "np_round x d - x = (of_int (rint (x * ?p)) - x * ?p) / ?p"
    using p by (simp add: np_round_def diff_divide_distrib)
  then have "\<bar>np_round x d - x\<bar> = \<bar>of_int (rint (x * ?p)) - x * ?p\<bar> / ?p"
    using p by simp
  also have "\<dots> \<le> (1 / 2) / ?p"
    using rint_near[of "x * ?p"] p by (intro divide_right_mono) simp_all
  finally show ?thesis by simp
qed

lemma mean_no_ticks_eq:
  assumes "wf_frame fr" "get_col fr ''date_time'' = Inr dt" "get_col fr tgt_col = Inr xs" "dt \<noteq> []"
  shows "mean_no_ticks fr tgt_col
    = Inr (Some (sum_list xs / of_nat (length (business_days (first_day (map business_day dt))
                                                 (last_day (map business_day dt))))))"
proof -
  have len: "length dt = length xs"
    using wf_frame_length[OF assms(1,2)] wf_frame_length[OF assms(1,3)] by simp
  note r = resample_B_sum_total[OF len assms(4)]
  show ?thesis
    using assms(2,3) r by (simp add: mean_no_ticks_def mean_def)
qed

lemma assign_groups_auto:
  assumes "df < length (heap w)" "wf_frame (heap w ! df)" "get_col (heap w ! df) cum_col = Inr cum"
    and "get_auto_threshold (heap w ! df) tgt_col rounding auto_ratio = Inr th"
  shows "fst (assign_groups_threshold df Auto tgt_col cum_col rounding auto_ratio w)
           = Inr (groups_of th cum)"
    and "stdout (snd (assign_groups_threshold df Auto tgt_col cum_col rounding auto_ratio w))
           = stdout w @ [th]"
proof -
  have n: "nrows (heap w ! df) = length cum"
    using wf_frame_length[OF assms(2,3)] by simp
  obtain col gs g r where loop: "assign_loop th (length cum) cum = (col, gs, g, r)"
    by (cases "assign_loop th (length cum) cum") auto
  have "fst (assign_groups_threshold df Auto tgt_col cum_col rounding auto_ratio w)
           = Inr (groups_of th cum)
      \<and> stdout (snd (assign_groups_threshold df Auto tgt_col cum_col rounding auto_ratio w))
           = stdout w @ [th]"
  proof (cases "cum = []")
    case True
    then show ?thesis
      using assms(1,4) n
      by (simp add: assign_groups_threshold_def copy_deep_def resolve_threshold_def
          nth_append groups_of_def assign_loop_def print_def)
  next
    case False
    then show ?thesis
      using assms(1,3,4) n loop
      by (simp add: assign_groups_threshold_def copy_deep_def resolve_threshold_def
          nth_append groups_of_def store_col_def print_def)
  qed
  then show "fst (assign_groups_threshold df Auto tgt_col cum_col rounding auto_ratio w)
           = Inr (groups_of th cum)"
    and "stdout (snd (assign_groups_threshold df Auto tgt_col cum_col rounding auto_ratio w))
           = stdout w @ [th]"
    by simp_all
qed

lemma floor_rat_numeral:
  "\<lfloor>numeral a / numeral b :: rat\<rfloor> = numeral a div numeral b"
  "\<lfloor>1 / numeral b :: rat\<rfloor> = 1 div numeral b"
  "\<lfloor>- (numeral a / numeral b) :: rat\<rfloor> = - numeral a div numeral b"
  "\<lfloor>- (1 / numeral b) :: rat\<rfloor> = - 1 div numeral b"
proof -
  show "\<lfloor>numeral a / numeral b :: rat\<rfloor> = numeral a div numeral b"
    by (metis floor_divide_of_int_eq of_int_numeral)
  show "\<lfloor>1 / numeral b :: rat\<rfloor> = 1 div numeral b"
    by (metis floor_divide_of_int_eq of_int_1 of_int_numeral)
  show "\<lfloor>- (numeral a / numeral b) :: rat\<rfloor> = - numeral a div numeral b"
    by (metis divide_minus_left floor_divide_of_int_eq of_int_neg_numeral of_int_numeral)
  show "\<lfloor>- (1 / numeral b) :: rat\<rfloor> = - 1 div numeral b"
    by (metis divide_minus_left floor_divide_of_int_eq of_int_1 of_int_minus of_int_numeral)
qed

lemmas auto_eval = mean_no_ticks_def get_auto_threshold_def mean_def resample_B_sum_def
  business_days_def business_day_def first_day_def last_day_def np_round_def rint_def pow10_def
  upto_rec1 Let_def floor_rat_numeral

lemma W3_mean: "mean_no_ticks (heap W3 ! 0) ''ticks'' = Inr (Some 1)"
  by (simp add: W3_def frame_eval auto_eval)

lemma W3_cols:
  "0 < length (heap W3)" "wf_frame (heap W3 ! 0)"
  "get_col (heap W3 ! 0) ''date_time'' = Inr [0, 1, 2]"
  "get_col (heap W3 ! 0) ''ticks'' = Inr [1, 1, 1]"
  "get_col (heap W3 ! 0) ''cum_ticks'' = Inr [1, 2, 3]"
  by (simp_all add: W3_def frame_eval)

section \<open>Float64 subtraction\<close>

lemma exponent64_numeral:
  "exponent64 (numeral k) x =
     (if x < 2 ^ 52 then exponent64 (pred_numeral k) (2 * x) - 1
      else if 2 ^ 53 \<le> x then exponent64 (pred_numeral k) (x / 2) + 1
      else 0)"
  by (simp add: numeral_eq_Suc)

lemmas fl_eval = fl64_def minus64_def pow2_def rint_def exponent64_numeral Let_def floor_rat_numeral

lemma exponent64_le0: "0 < x \<Longrightarrow> x < 2 ^ 53 \<Longrightarrow> exponent64 fuel x \<le> 0"
proof (induction fuel arbitrary: x)
  case 0
  show ?case by simp
next
  case (Suc fuel)
  show ?case
  proof (cases "x < 2 ^ 52")
    case True
    then have "2 * x < 2 ^ 53" by simp
    moreover have "0 < 2 * x" using Suc.prems(1) by simp
    ultimately have "exponent64 fuel (2 * x) \<le> 0" by (rule Suc.IH[rotated])
    then show ?thesis using True by simp
  next
    case False
    then show ?thesis using Suc.prems(2) by simp
  qed
qed

lemma rint_of_int: "rint (of_int k) = k"
  by (simp add: rint_def)

lemma fl64_int:
  assumes "\<bar>k\<bar> < 2 ^ 53"
  shows "fl64 (of_int k) = of_int k"
proof (cases "k = 0")
  case True
  then show ?thesis by (simp add: fl64_def)
next
  case False
  define e where "e = exponent64 1126 \<bar>of_int k :: rat\<bar>"
  define m where "m = nat (- e)"
  have pos: "0 < \<bar>of_int k :: rat\<bar>" using False by simp
  have "(of_int \<bar>k\<bar> :: rat) < of_int (2 ^ 53)" using assms by (simp only: of_int_less_iff)
  then have "\<bar>of_int k :: rat\<bar> < 2 ^ 53" by simp
  then have e0: "e \<le> 0" unfolding e_def using pos by (intro exponent64_le0)
  have p: "pow2 e = 1 / 2 ^ m"
  proof (cases "e = 0")
    case True
    then show ?thesis by (simp add: pow2_def m_def)
  next
    case False
    then have "e < 0" using e0 by simp
    then show ?thesis by (simp add: pow2_def m_def)
  qed
  have "of_int k / pow2 e = (of_int (k * 2 ^ m) :: rat)" by (simp add: p)
  then have "rint (of_int k / pow2 e) = k * 2 ^ m" by (simp only: rint_of_int)
  then have "of_int (rint (of_int k / pow2 e)) * pow2 e = (of_int k :: rat)" by (simp add: p)
  then show ?thesis using False by (simp add: fl64_def e_def Let_def)
qed

lemma int_exact:
  assumes "int_column cum"
  shows "exact_on minus64 cum"
  unfolding exact_on_def
proof (intro ballI)
  fix x b c assume x: "x \<in> set cum" and b: "b \<in> set (0 # cum)" and c: "c \<in> set (0 # cum)"
  have ix: "of_int \<lfloor>x\<rfloor> = x" "\<bar>x\<bar> < 2 ^ 52" using assms x by (simp_all add: int_column_def)
  have ic: "of_int \<lfloor>c\<rfloor> = c" "\<bar>c\<bar> < 2 ^ 52" using assms c by (auto simp: int_column_def)
  have "x - c = of_int \<lfloor>x\<rfloor> - of_int \<lfloor>c\<rfloor>" by (simp only: ix(1) ic(1))
  then have d: "x - c = of_int (\<lfloor>x\<rfloor> - \<lfloor>c\<rfloor>)" by (simp only: of_int_diff)
  have "\<bar>x - c\<bar> < 2 ^ 53" using ix(2) ic(2) by simp
  then have "(of_int \<bar>\<lfloor>x\<rfloor> - \<lfloor>c\<rfloor>\<bar> :: rat) < of_int (2 ^ 53)" using d by simp
  then have "\<bar>\<lfloor>x\<rfloor> - \<lfloor>c\<rfloor>\<bar> < 2 ^ 53" by (simp only: of_int_less_iff)
  then have "fl64 (of_int (\<lfloor>x\<rfloor> - \<lfloor>c\<rfloor>)) = of_int (\<lfloor>x\<rfloor> - \<lfloor>c\<rfloor>)" by (rule fl64_int)
  then have "fl64 (x - c) = x - c" using d by simp
  then show "minus64 (x - b) (c - b) = x - c" by (simp add: minus64_def)
qed

section \<open>Columns on which the subtractions are exact\<close>

lemma loop_body_with_exact:
  assumes ex: "exact_on sub cum" and b: "inv_basic t cum k st" and k: "k < length cum"
  shows "loop_body_with sub (Some t) st k = loop_body (Some t) st k"
proof -
  obtain col gs g r where st: "st = (col, gs, g, r)" by (cases st) auto
  from b st have rk: "r \<le> k" and col: "col = map (\<lambda>x. x - baseline_before cum r) cum"
    by (simp_all add: inv_basic_def)
  have bl: "baseline_before cum r \<in> set (0 # cum)"
  proof (cases "r = 0")
    case True
    then show ?thesis by (simp add: baseline_before_def)
  next
    case False
    then have "r - 1 < length cum" using rk k by simp
    then have "cum ! (r - 1) \<in> set cum" by (rule nth_mem)
    then show ?thesis using False by (simp add: baseline_before_def)
  qed
  have ck: "cum ! k \<in> set (0 # cum)" using k by simp
  have colk: "col ! k = cum ! k - baseline_before cum r" using col k by simp
  have "map (\<lambda>y. sub y (col ! k)) col = map (\<lambda>y. y - col ! k) col"
    unfolding col map_map
  proof (rule map_cong[OF refl])
    fix x assume "x \<in> set cum"
    then have "sub (x - baseline_before cum r) (cum ! k - baseline_before cum r) = x - cum ! k"
      using ex bl ck unfolding exact_on_def by blast
    then show "((\<lambda>y. sub y (map (\<lambda>x. x - baseline_before cum r) cum ! k)) \<circ> (\<lambda>x. x - baseline_before cum r)) x
        = ((\<lambda>y. y - map (\<lambda>x. x - baseline_before cum r) cum ! k) \<circ> (\<lambda>x. x - baseline_before cum r)) x"
      using k by simp
  qed
  then show ?thesis by (simp add: st Let_def)
qed

lemma loop_with_prefix:
  assumes "exact_on sub cum" "k \<le> length cum"
  shows "foldl (loop_body_with sub (Some t)) (cum, replicate (length cum) None, 0, 0) [0..<k]
       = foldl (loop_body (Some t)) (cum, replicate (length cum) None, 0, 0) [0..<k]"
  using assms(2)
proof (induction k)
  case 0
  show ?case by simp
next
  case (Suc k)
  then have k: "k < length cum" and kl: "k \<le> length cum" by simp_all
  have "inv_basic t cum k (foldl (loop_body (Some t)) (cum, replicate (length cum) None, 0, 0) [0..<k])"
    using loop_inv_prefix[OF kl, of t] by (simp add: loop_inv_def)
  then show ?case using Suc.IH[OF kl] loop_body_with_exact[OF assms(1) _ k] by simp
qed

lemma assign_loop_with_exact:
  assumes "exact_on sub cum"
  shows "assign_loop_with sub (Some t) (length cum) cum = assign_loop (Some t) (length cum) cum"
  using loop_with_prefix[OF assms, of "length cum" t]
  by (simp add: assign_loop_with_def assign_loop_def)

lemma assign_loop_with_minus: "assign_loop_with (-) th n cum = assign_loop th n cum"
proof -
  have "loop_body_with (-) th = loop_body th"
    by (intro ext) (auto simp: Let_def)
  then show ?thesis by (simp add: assign_loop_with_def assign_loop_def)
qed

lemma spec_with_prefix:
  assumes "exact_on sub cum" "k \<le> length cum"
  shows "foldl (spec_step_with sub t cum) (replicate (length cum) 0, 0, 0, 0) [0..<k]
       = foldl (spec_step t cum) (replicate (length cum) 0, 0, 0, 0) [0..<k]
     \<and> snd (snd (snd (foldl (spec_step t cum) (replicate (length cum) 0, 0, 0, 0) [0..<k])))
         \<in> set (0 # cum)"
  using assms(2)
proof (induction k)
  case 0
  show ?case by simp
next
  case (Suc k)
  then have k: "k < length cum" and kl: "k \<le> length cum" by simp_all
  obtain out g s b where
    ss: "foldl (spec_step t cum) (replicate (length cum) 0, 0, 0, 0) [0..<k] = (out, g, s, b)"
    by (cases "foldl (spec_step t cum) (replicate (length cum) 0, 0, 0, 0) [0..<k]") auto
  from Suc.IH[OF kl] ss have
    eq: "foldl (spec_step_with sub t cum) (replicate (length cum) 0, 0, 0, 0) [0..<k] = (out, g, s, b)"
    and b: "b \<in> set (0 # cum)" by simp_all
  have ck: "cum ! k \<in> set cum" using k by (rule nth_mem)
  have "0 \<in> set (0 # cum)" by simp
  then have "sub (cum ! k - 0) (b - 0) = cum ! k - b"
    using assms(1) ck b unfolding exact_on_def by blast
  then have sub: "sub (cum ! k) b = cum ! k - b" by simp
  have step: "spec_step_with sub t cum (out, g, s, b) k = spec_step t cum (out, g, s, b) k"
    by (simp add: sub Let_def)
  have "snd (snd (snd (spec_step t cum (out, g, s, b) k))) \<in> set (0 # cum)"
    using b ck by (simp add: Let_def)
  then show ?case using eq ss step by simp
qed

lemma spec_with_exact:
  assumes "exact_on sub cum"
  shows "spec_assign_groups_with sub cum t = spec_assign_groups cum t"
  using spec_with_prefix[OF assms, of "length cum" t]
  by (simp add: spec_assign_groups_with_def spec_assign_groups_def)

section \<open>The crossings of the loop\<close>

lemma state_at_Suc:
  "state_at sub th cum (Suc k) = loop_body_with sub th (state_at sub th cum k) k"
  by (simp add: state_at_def)

lemma crossings_Suc:
  "crossings sub th cum (Suc k)
     = crossings sub th cum k + (if crosses sub th cum k then 1 else 0)"
  by (simp add: crossings_def)

lemma crossings_mono: "i \<le> k \<Longrightarrow> crossings sub th cum i \<le> crossings sub th cum k"
proof (induction k)
  case 0
  then show ?case by simp
next
  case (Suc k)
  show ?case
  proof (cases "i = Suc k")
    case True
    then show ?thesis by simp
  next
    case False
    then have "crossings sub th cum i \<le> crossings sub th cum k" using Suc by simp
    then show ?thesis by (simp add: crossings_Suc)
  qed
qed

lemma crossings_none:
  "i \<le> k \<Longrightarrow> \<forall>j. i \<le> j \<and> j < k \<longrightarrow> \<not> crosses sub th cum j
     \<Longrightarrow> crossings sub th cum k = crossings sub th cum i"
proof (induction k)
  case 0
  then show ?case by simp
next
  case (Suc k)
  show ?case
  proof (cases "i = Suc k")
    case True
    then show ?thesis by simp
  next
    case False
    then have ik: "i \<le> k" using Suc.prems(1) by simp
    have "\<not> crosses sub th cum k" using Suc.prems(2) ik by simp
    moreover have "crossings sub th cum k = crossings sub th cum i"
      using Suc.IH[OF ik] Suc.prems(2) by simp
    ultimately show ?thesis by (simp add: crossings_Suc)
  qed
qed

lemma shape_inv_step:
  assumes inv: "shape_inv sub th cum k (state_at sub th cum k)" and k: "k < length cum"
  shows "shape_inv sub th cum (Suc k) (state_at sub th cum (Suc k))"
proof -
  obtain col gs g r where st: "state_at sub th cum k = (col, gs, g, r)"
    by (cases "state_at sub th cum k") auto
  from inv have I: "length gs = length cum \<and> r \<le> k \<and> g = crossings sub th cum k
        \<and> (0 < r \<longrightarrow> crosses sub th cum (r - 1))
        \<and> (\<forall>j. r \<le> j \<and> j < k \<longrightarrow> \<not> crosses sub th cum j)
        \<and> (\<forall>i<r. gs ! i = Some (crossings sub th cum i) \<and> crossings sub th cum i < g)
        \<and> (\<forall>i. r \<le> i \<and> i < length cum \<longrightarrow> gs ! i = None)
        \<and> (\<forall>j<g. \<exists>s e. s \<le> e \<and> e < r \<and> crosses sub th cum e
               \<and> (\<forall>i<length cum. gs ! i = Some j \<longleftrightarrow> s \<le> i \<and> i \<le> e))"
    unfolding st shape_inv_def prod.case .
  from I have len: "length gs = length cum" by (elim conjE)
  from I have rk: "r \<le> k" by (elim conjE)
  from I have g: "g = crossings sub th cum k" by (elim conjE)
  from I have last: "0 < r \<longrightarrow> crosses sub th cum (r - 1)" by (elim conjE)
  from I have none: "\<forall>j. r \<le> j \<and> j < k \<longrightarrow> \<not> crosses sub th cum j" by (elim conjE)
  from I have ids: "\<forall>i<r. gs ! i = Some (crossings sub th cum i) \<and> crossings sub th cum i < g"
    by (elim conjE)
  from I have nan: "\<forall>i. r \<le> i \<and> i < length cum \<longrightarrow> gs ! i = None" by (elim conjE)
  from I have spans: "\<forall>j<g. \<exists>s e. s \<le> e \<and> e < r \<and> crosses sub th cum e
               \<and> (\<forall>i<length cum. gs ! i = Some j \<longleftrightarrow> s \<le> i \<and> i \<le> e)"
    by (elim conjE)
  have test: "crosses sub th cum k = ge_th (col ! k) th"
    by (simp add: crosses_def st)
  show ?thesis
  proof (cases "crosses sub th cum k")
    case False
    then have next_st: "state_at sub th cum (Suc k) = (col, gs, g, r)"
      using test by (simp add: state_at_Suc st)
    have g': "g = crossings sub th cum (Suc k)" using g False by (simp add: crossings_Suc)
    have none': "\<forall>j. r \<le> j \<and> j < Suc k \<longrightarrow> \<not> crosses sub th cum j"
      using none False by (auto simp: less_Suc_eq)
    have rk': "r \<le> Suc k" using rk by simp
    show ?thesis
      unfolding next_st shape_inv_def prod.case
      using len rk' g' last none' ids nan spans by (intro conjI)
  next
    case True
    let ?gs = "set_slice r (Suc k) (Some g) gs"
    have next_st: "state_at sub th cum (Suc k)
        = (map (\<lambda>x. sub x (col ! k)) col, ?gs, Suc g, Suc k)"
      using True test by (simp add: state_at_Suc st Let_def)
    have nth: "?gs ! i = (if r \<le> i \<and> i < Suc k then Some g else gs ! i)" if "i < length cum" for i
      using that len by (simp add: set_slice_nth)
    have c1: "length ?gs = length cum" using len by simp
    have c3: "Suc g = crossings sub th cum (Suc k)" using g True by (simp add: crossings_Suc)
    have c4: "0 < Suc k \<longrightarrow> crosses sub th cum (Suc k - 1)" using True by simp
    have c5: "\<forall>j. Suc k \<le> j \<and> j < Suc k \<longrightarrow> \<not> crosses sub th cum j" by auto
    have c6: "\<forall>i<Suc k. ?gs ! i = Some (crossings sub th cum i) \<and> crossings sub th cum i < Suc g"
    proof (intro allI impI)
      fix i assume i: "i < Suc k"
      then have il: "i < length cum" using k by simp
      show "?gs ! i = Some (crossings sub th cum i) \<and> crossings sub th cum i < Suc g"
      proof (cases "r \<le> i")
        case True
        have ik: "i \<le> k" using i by simp
        have "\<forall>j. i \<le> j \<and> j < k \<longrightarrow> \<not> crosses sub th cum j" using none True by simp
        then have "crossings sub th cum k = crossings sub th cum i"
          by (rule crossings_none[OF ik])
        then show ?thesis using nth[OF il] True i g by simp
      next
        case False
        then have "i < r" by simp
        then have "gs ! i = Some (crossings sub th cum i) \<and> crossings sub th cum i < g"
          using ids by blast
        then show ?thesis using nth[OF il] False by simp
      qed
    qed
    have c7: "\<forall>i. Suc k \<le> i \<and> i < length cum \<longrightarrow> ?gs ! i = None"
    proof (intro allI impI)
      fix i assume i: "Suc k \<le> i \<and> i < length cum"
      then have "r \<le> i" using rk by simp
      then have "gs ! i = None" using nan i by blast
      then show "?gs ! i = None" using nth[of i] i by simp
    qed
    have c8: "\<forall>j<Suc g. \<exists>s e. s \<le> e \<and> e < Suc k \<and> crosses sub th cum e
               \<and> (\<forall>i<length cum. ?gs ! i = Some j \<longleftrightarrow> s \<le> i \<and> i \<le> e)"
    proof (intro allI impI)
      fix j assume j: "j < Suc g"
      show "\<exists>s e. s \<le> e \<and> e < Suc k \<and> crosses sub th cum e
               \<and> (\<forall>i<length cum. ?gs ! i = Some j \<longleftrightarrow> s \<le> i \<and> i \<le> e)"
      proof (cases "j = g")
        case True
        have "\<forall>i<length cum. ?gs ! i = Some g \<longleftrightarrow> r \<le> i \<and> i \<le> k"
        proof (intro allI impI)
          fix i assume il: "i < length cum"
          show "?gs ! i = Some g \<longleftrightarrow> r \<le> i \<and> i \<le> k"
          proof (cases "i < r")
            case True
            then have "gs ! i = Some (crossings sub th cum i) \<and> crossings sub th cum i < g"
              using ids by blast
            then have "gs ! i \<noteq> Some g" by auto
            then show ?thesis using nth[OF il] True by simp
          next
            case False
            show ?thesis
            proof (cases "i \<le> k")
              case True
              then show ?thesis using nth[OF il] False by simp
            next
              case False
              then have "r \<le> i" using rk by simp
              then have "gs ! i = None" using nan il by blast
              then show ?thesis using nth[OF il] False by simp
            qed
          qed
        qed
        then have "r \<le> k \<and> k < Suc k \<and> crosses sub th cum k
               \<and> (\<forall>i<length cum. ?gs ! i = Some j \<longleftrightarrow> r \<le> i \<and> i \<le> k)"
          using rk \<open>crosses sub th cum k\<close> True by simp
        then show ?thesis by blast
      next
        case False
        then have "j < g" using j by simp
        with spans obtain s e where se: "s \<le> e" "e < r" "crosses sub th cum e"
          and occ: "\<forall>i<length cum. gs ! i = Some j \<longleftrightarrow> s \<le> i \<and> i \<le> e" by blast
        have "\<forall>i<length cum. ?gs ! i = Some j \<longleftrightarrow> s \<le> i \<and> i \<le> e"
        proof (intro allI impI)
          fix i assume il: "i < length cum"
          show "?gs ! i = Some j \<longleftrightarrow> s \<le> i \<and> i \<le> e"
          proof (cases "r \<le> i \<and> i < Suc k")
            case True
            then have "?gs ! i = Some g" using nth[OF il] by simp
            moreover have "\<not> i \<le> e" using True se(2) by simp
            ultimately show ?thesis using False by simp
          next
            case False
            then have "?gs ! i = gs ! i" using nth[OF il] by auto
            then show ?thesis using occ il by simp
          qed
        qed
        moreover have "e < Suc k" using se(2) rk by simp
        ultimately have "s \<le> e \<and> e < Suc k \<and> crosses sub th cum e
               \<and> (\<forall>i<length cum. ?gs ! i = Some j \<longleftrightarrow> s \<le> i \<and> i \<le> e)"
          using se by simp
        then show ?thesis by blast
      qed
    qed
    have c2: "Suc k \<le> Suc k" by simp
    show ?thesis
      unfolding next_st shape_inv_def prod.case
      using c1 c2 c3 c4 c5 c6 c7 c8 by (intro conjI)
  qed
qed

lemma shape_inv_at:
  "k \<le> length cum \<Longrightarrow> shape_inv sub th cum k (state_at sub th cum k)"
proof (induction k)
  case 0
  show ?case by (simp add: shape_inv_def state_at_def crossings_def)
next
  case (Suc k)
  then show ?case using shape_inv_step[of sub th cum k] by simp
qed

lemma assign_loop_shape:
  assumes "assign_loop_with sub th (length cum) cum = (col, gs, g, r)"
  shows "shape_inv sub th cum (length cum) (col, gs, g, r)"
  using shape_inv_at[of "length cum" cum sub th] assms
  by (simp add: state_at_def assign_loop_with_def)

lemma crossings_0: "crossings sub th cum 0 = 0"
  by (simp add: crossings_def)

lemma crosses_held: "crosses sub (Some t) cum k \<longleftrightarrow> t \<le> held sub (Some t) cum k"
  by (simp add: crosses_def held_def ge_th_def)

lemma loop_shape_facts:
  assumes "assign_loop_with sub th (length cum) cum = (col, gs, g, r)"
  shows "length gs = length cum" and "r \<le> length cum"
    and "0 < r \<longrightarrow> crosses sub th cum (r - 1)"
    and "\<forall>i<r. gs ! i = Some (crossings sub th cum i)"
    and "\<forall>i. r \<le> i \<and> i < length cum \<longrightarrow> gs ! i = None"
proof -
  have I: "length gs = length cum \<and> r \<le> length cum
        \<and> g = crossings sub th cum (length cum)
        \<and> (0 < r \<longrightarrow> crosses sub th cum (r - 1))
        \<and> (\<forall>j. r \<le> j \<and> j < length cum \<longrightarrow> \<not> crosses sub th cum j)
        \<and> (\<forall>i<r. gs ! i = Some (crossings sub th cum i) \<and> crossings sub th cum i < g)
        \<and> (\<forall>i. r \<le> i \<and> i < length cum \<longrightarrow> gs ! i = None)
        \<and> (\<forall>j<g. \<exists>s e. s \<le> e \<and> e < r \<and> crosses sub th cum e
               \<and> (\<forall>i<length cum. gs ! i = Some j \<longleftrightarrow> s \<le> i \<and> i \<le> e))"
    using assign_loop_shape[OF assms] unfolding shape_inv_def prod.case .
  from I show "length gs = length cum" by (elim conjE)
  from I show "r \<le> length cum" by (elim conjE)
  from I show "0 < r \<longrightarrow> crosses sub th cum (r - 1)" by (elim conjE)
  from I have "\<forall>i<r. gs ! i = Some (crossings sub th cum i) \<and> crossings sub th cum i < g"
    by (elim conjE)
  then show "\<forall>i<r. gs ! i = Some (crossings sub th cum i)" by blast
  from I show "\<forall>i. r \<le> i \<and> i < length cum \<longrightarrow> gs ! i = None" by (elim conjE)
qed

lemma group_closes_at_crossing:
  assumes loop: "assign_loop_with sub th (length cum) cum = (col, gs, g, r)"
    and h: "s \<le> e" "e < length gs" "\<forall>i<length gs. gs ! i = Some j \<longleftrightarrow> s \<le> i \<and> i \<le> e"
  shows "crosses sub th cum e \<and> (\<forall>i. s \<le> i \<and> i < e \<longrightarrow> \<not> crosses sub th cum i)"
proof -
  note f = loop_shape_facts[OF loop]
  have assigned: "i < r" if "i < length gs" "gs ! i = Some a" for i a
  proof (rule ccontr)
    assume "\<not> i < r"
    then have "gs ! i = None" using f(5) f(1) that(1) by simp
    then show False using that(2) by simp
  qed
  have occ: "gs ! i = Some j" if "s \<le> i" "i \<le> e" for i
    using h(2,3) that by simp
  have num: "crossings sub th cum i = j" if "s \<le> i" "i \<le> e" for i
  proof -
    have "i < length gs" using that h(2) by simp
    then have "i < r" using assigned occ[OF that] by blast
    then have "gs ! i = Some (crossings sub th cum i)" using f(4) by blast
    then show ?thesis using occ[OF that] by simp
  qed
  have er: "e < r" using assigned[OF h(2)] occ[of e] h(1) by simp
  have a: "crosses sub th cum e"
  proof (cases "Suc e < r")
    case True
    then have l: "Suc e < length gs" using f(1,2) by simp
    have "gs ! Suc e = Some (crossings sub th cum (Suc e))" using f(4) True by blast
    moreover have "gs ! Suc e \<noteq> Some j" using h(3) l by simp
    ultimately have "crossings sub th cum (Suc e) \<noteq> j" by auto
    then have "crossings sub th cum (Suc e) \<noteq> crossings sub th cum e"
      using num[of e] h(1) by simp
    then show ?thesis by (simp add: crossings_Suc split: if_splits)
  next
    case False
    then have "r - 1 = e" "0 < r" using er by simp_all
    then show ?thesis using f(3) by simp
  qed
  have b: "\<forall>i. s \<le> i \<and> i < e \<longrightarrow> \<not> crosses sub th cum i"
  proof (intro allI impI)
    fix i assume i: "s \<le> i \<and> i < e"
    then have "crossings sub th cum i = j" using num[of i] by simp
    moreover have "crossings sub th cum (Suc i) = j" using num[of "Suc i"] i by simp
    ultimately show "\<not> crosses sub th cum i" by (simp add: crossings_Suc split: if_splits)
  qed
  show ?thesis using a b by (rule conjI)
qed

lemma crossing_on_exact:
  assumes "exact_on sub cum"
    and "assign_loop_with sub (Some t) (length cum) cum = (col, groups, group_id, ref_row)"
  shows "(\<forall>g s e. s \<le> e \<and> e < length groups
            \<and> (\<forall>i<length groups. groups ! i = Some g \<longleftrightarrow> s \<le> i \<and> i \<le> e)
          \<longrightarrow> t \<le> rebased cum s e \<and> (\<forall>i. s \<le> i \<and> i < e \<longrightarrow> rebased cum s i < t))
    \<and> (\<forall>s i. s \<le> i \<and> i < length groups
            \<and> (s = 0 \<or> groups ! (s - 1) \<noteq> None \<and> groups ! (s - 1) \<noteq> groups ! s)
            \<and> (\<forall>j. s \<le> j \<and> j < i \<longrightarrow> rebased cum s j < t) \<and> t \<le> rebased cum s i
          \<longrightarrow> groups ! i \<noteq> None \<and> (\<forall>j. s \<le> j \<and> j \<le> i \<longrightarrow> groups ! j = groups ! i)
              \<and> (i + 1 < length groups \<longrightarrow> groups ! (i + 1) \<noteq> groups ! i))"
proof -
  define gs g r where "gs = groups" and "g = group_id" and "r = ref_row"
  have loop: "assign_loop (Some t) (length cum) cum = (col, gs, g, r)"
    using assign_loop_with_exact[OF assms(1), of t] assms(2) by (simp add: gs_def g_def r_def)
  have gs: "groups = gs" by (simp add: gs_def)
  note facts = groups_of_spans[OF loop]
  have len: "length gs = length cum" by (rule facts(1))
  have p1: "\<forall>g s e. s \<le> e \<and> e < length groups
            \<and> (\<forall>i<length groups. groups ! i = Some g \<longleftrightarrow> s \<le> i \<and> i \<le> e)
          \<longrightarrow> t \<le> rebased cum s e \<and> (\<forall>i. s \<le> i \<and> i < e \<longrightarrow> rebased cum s i < t)"
  proof (intro allI impI, elim conjE)
    fix j s e
    assume h: "s \<le> e" "e < length groups" "\<forall>i<length groups. groups ! i = Some j \<longleftrightarrow> s \<le> i \<and> i \<le> e"
    then have "gs ! e = Some j" using gs by simp
    have "j < g"
    proof (cases "e < r")
      case True
      with facts(4) obtain j' where "j' < g" "gs ! e = Some j'" by blast
      with \<open>gs ! e = Some j\<close> show ?thesis by simp
    next
      case False
      then show ?thesis using facts(3) h(2) gs len \<open>gs ! e = Some j\<close> by simp
    qed
    with facts(6) obtain s' e' where e': "e' < r" and sp: "group_span t cum gs j s' e'" by blast
    have "s = s' \<and> e = e'"
      using span_unique[of s e "length cum" s' e' "\<lambda>i. gs ! i = Some j"] h sp gs len
      by (simp add: group_span_def)
    then show "t \<le> rebased cum s e \<and> (\<forall>i. s \<le> i \<and> i < e \<longrightarrow> rebased cum s i < t)"
      using sp by (simp add: group_span_def)
  qed
  have p2: "\<forall>s i. s \<le> i \<and> i < length groups
            \<and> (s = 0 \<or> groups ! (s - 1) \<noteq> None \<and> groups ! (s - 1) \<noteq> groups ! s)
            \<and> (\<forall>j. s \<le> j \<and> j < i \<longrightarrow> rebased cum s j < t) \<and> t \<le> rebased cum s i
          \<longrightarrow> groups ! i \<noteq> None \<and> (\<forall>j. s \<le> j \<and> j \<le> i \<longrightarrow> groups ! j = groups ! i)
              \<and> (i + 1 < length groups \<longrightarrow> groups ! (i + 1) \<noteq> groups ! i)"
  proof (intro allI impI, elim conjE)
    fix s i
    assume h: "s \<le> i" "i < length groups"
      "s = 0 \<or> groups ! (s - 1) \<noteq> None \<and> groups ! (s - 1) \<noteq> groups ! s"
      "\<forall>j. s \<le> j \<and> j < i \<longrightarrow> rebased cum s j < t" "t \<le> rebased cum s i"
    have il: "i < length cum" using h(2) gs len by simp
    have sr: "s \<le> r"
    proof (rule ccontr)
      assume "\<not> s \<le> r"
      then have "0 < s" "r \<le> s - 1" "s - 1 < length cum" using h(1) il by auto
      then have "gs ! (s - 1) = None" using facts(3) by blast
      then show False using h(3) \<open>0 < s\<close> gs by simp
    qed
    have "s < r"
    proof (rule ccontr)
      assume "\<not> s < r"
      then have "s = r" using sr by simp
      then have "rebased cum s i < t" using facts(5) h(1) il by blast
      then show False using h(5) by simp
    qed
    with facts(4) obtain j where j: "j < g" "gs ! s = Some j" by blast
    with facts(6) obtain s' e' where e': "e' < r" and sp: "group_span t cum gs j s' e'" by blast
    have occ: "\<forall>x<length cum. gs ! x = Some j \<longleftrightarrow> s' \<le> x \<and> x \<le> e'"
      using sp by (simp add: group_span_def)
    have slen: "s < length cum" using h(1) il by simp
    have s_in: "s' \<le> s" "s \<le> e'" using occ j(2) slen by auto
    have "s = s'"
    proof (rule ccontr)
      assume "s \<noteq> s'"
      then have a: "s' \<le> s - 1" "s - 1 \<le> e'" "s - 1 < length cum" "0 < s"
        using s_in slen by auto
      then have "gs ! (s - 1) = Some j" using occ by blast
      then show False using h(3) a(4) j(2) gs by simp
    qed
    have el: "e' < length cum" using sp by (simp add: group_span_def)
    have cross: "t \<le> rebased cum s e'" and below: "\<forall>x. s \<le> x \<and> x < e' \<longrightarrow> rebased cum s x < t"
      using sp \<open>s = s'\<close> by (simp_all add: group_span_def)
    have "i = e'"
    proof (rule ccontr)
      assume "i \<noteq> e'"
      then consider "i < e'" | "e' < i" by linarith
      then show False
      proof cases
        case 1
        then have "rebased cum s i < t" using below h(1) by blast
        then show ?thesis using h(5) by simp
      next
        case 2
        then have "rebased cum s e' < t" using h(4) s_in(2) by blast
        then show ?thesis using cross by simp
      qed
    qed
    have ge: "gs ! e' = Some j" using occ el s_in by simp
    have g1: "groups ! i \<noteq> None" using ge \<open>i = e'\<close> gs by simp
    have g2: "\<forall>x. s \<le> x \<and> x \<le> i \<longrightarrow> groups ! x = groups ! i"
    proof (intro allI impI)
      fix x assume x: "s \<le> x \<and> x \<le> i"
      then have "x < length cum" using il by simp
      then have "gs ! x = Some j" using occ x \<open>i = e'\<close> \<open>s = s'\<close> by simp
      then show "groups ! x = groups ! i" using ge \<open>i = e'\<close> gs by simp
    qed
    have g3: "i + 1 < length groups \<longrightarrow> groups ! (i + 1) \<noteq> groups ! i"
    proof
      assume "i + 1 < length groups"
      then have "i + 1 < length cum" using gs len by simp
      then have "gs ! (i + 1) \<noteq> Some j" using occ \<open>i = e'\<close> by simp
      moreover have "gs ! i = Some j" using occ el \<open>i = e'\<close> s_in by simp
      ultimately show "groups ! (i + 1) \<noteq> groups ! i" using gs by simp
    qed
    show "groups ! i \<noteq> None \<and> (\<forall>j. s \<le> j \<and> j \<le> i \<longrightarrow> groups ! j = groups ! i)
              \<and> (i + 1 < length groups \<longrightarrow> groups ! (i + 1) \<noteq> groups ! i)"
      using g1 g2 g3 by blast
  qed
  show ?thesis using p1 p2 by (rule conjI)
qed

section \<open>The loop on the sample columns\<close>

lemmas loop64_eval = assign_loop_with_def ge_th_def set_slice_def upt_rec fl_eval
lemmas spec64_eval = spec_assign_groups_with_def set_slice_def upt_rec fl_eval

lemma I3_loop:
  "assign_loop_with minus64 (Some 2) (length [1, 2, 3 :: rat]) [1, 2, 3]
     = ([- 1, 0, 1], [Some 0, Some 0, None], 1, 2)"
  by (simp add: loop64_eval)

lemma I3_exact: "exact_on minus64 [1, 2, 3]"
  by (rule int_exact) (simp add: int_column_def)

lemma C64_loop:
  "assign_loop_with minus64 (Some th64) (length C64) C64
     = ([- 4728779608739021 / 2251799813685248, - 3152519739159347 / 2251799813685248,
         - 2476979795053773 / 2251799813685248, - 9007199254740991 / 9007199254740992, 0],
        [Some 0, Some 1, Some 2, Some 2, Some 3], 4, 5)"
  by (simp add: loop64_eval C64_def th64_def)

lemma C64_float: "map fl64 C64 = C64 \<and> fl64 th64 = th64"
  by (simp add: fl_eval C64_def th64_def)

section \<open>The claims\<close>

text \<open>
  C3, as amended. With a fixed threshold \<open>t\<close>, whatever the subtraction of the column, a
  group that spans the rows \<open>s\<close> to \<open>e\<close> has the cumulative measure that the loop holds
  (the cell it reads at a row, after its subtractions at the crossings before) at least
  \<open>t\<close> at row \<open>e\<close> and below \<open>t\<close> at every earlier row. On a column on which the
  subtractions of the loop are exact (with float64 numbers: every column of integers below
  \<open>2 ^ 52\<close> in magnitude, such as a cumulative tick count), the same holds of the
  cumulative measure rebased at \<open>s\<close>: it is at least \<open>t\<close> at row \<open>e\<close> and below \<open>t\<close> at
  every earlier row, and conversely the first row from the start of a bar on at which the
  rebased measure is at least \<open>t\<close> (equal to \<open>t\<close> included) closes the bar: it carries a
  group id, the rows from the start on carry the same one, and the next row does not. The
  groups are the column \<^verbatim>\<open>group\<close> that the loop ends with and
  \<^verbatim>\<open>_assign_groups_threshold\<close> returns; the rows after the final crossing carry none.
\<close>

theorem threshold_crossing:
  assumes "assign_loop_with sub (Some t) (length cum) cum = (col, groups, group_id, ref_row)"
  shows "(\<forall>g s e. s \<le> e \<and> e < length groups
            \<and> (\<forall>i<length groups. groups ! i = Some g \<longleftrightarrow> s \<le> i \<and> i \<le> e)
          \<longrightarrow> t \<le> held sub (Some t) cum e
              \<and> (\<forall>i. s \<le> i \<and> i < e \<longrightarrow> held sub (Some t) cum i < t))
    \<and> (exact_on sub cum \<longrightarrow>
         (\<forall>g s e. s \<le> e \<and> e < length groups
            \<and> (\<forall>i<length groups. groups ! i = Some g \<longleftrightarrow> s \<le> i \<and> i \<le> e)
          \<longrightarrow> t \<le> rebased cum s e \<and> (\<forall>i. s \<le> i \<and> i < e \<longrightarrow> rebased cum s i < t))
       \<and> (\<forall>s i. s \<le> i \<and> i < length groups
            \<and> (s = 0 \<or> groups ! (s - 1) \<noteq> None \<and> groups ! (s - 1) \<noteq> groups ! s)
            \<and> (\<forall>j. s \<le> j \<and> j < i \<longrightarrow> rebased cum s j < t) \<and> t \<le> rebased cum s i
          \<longrightarrow> groups ! i \<noteq> None \<and> (\<forall>j. s \<le> j \<and> j \<le> i \<longrightarrow> groups ! j = groups ! i)
              \<and> (i + 1 < length groups \<longrightarrow> groups ! (i + 1) \<noteq> groups ! i)))"
proof (intro conjI impI)
  show "\<forall>g s e. s \<le> e \<and> e < length groups
            \<and> (\<forall>i<length groups. groups ! i = Some g \<longleftrightarrow> s \<le> i \<and> i \<le> e)
          \<longrightarrow> t \<le> held sub (Some t) cum e
              \<and> (\<forall>i. s \<le> i \<and> i < e \<longrightarrow> held sub (Some t) cum i < t)"
  proof (intro allI impI, elim conjE)
    fix g s e
    assume h: "s \<le> e" "e < length groups"
      "\<forall>i<length groups. groups ! i = Some g \<longleftrightarrow> s \<le> i \<and> i \<le> e"
    have "crosses sub (Some t) cum e \<and> (\<forall>i. s \<le> i \<and> i < e \<longrightarrow> \<not> crosses sub (Some t) cum i)"
      using group_closes_at_crossing[OF assms h] .
    then show "t \<le> held sub (Some t) cum e
              \<and> (\<forall>i. s \<le> i \<and> i < e \<longrightarrow> held sub (Some t) cum i < t)"
      by (simp add: crosses_held not_le)
  qed
next
  assume ex: "exact_on sub cum"
  show "\<forall>g s e. s \<le> e \<and> e < length groups
            \<and> (\<forall>i<length groups. groups ! i = Some g \<longleftrightarrow> s \<le> i \<and> i \<le> e)
          \<longrightarrow> t \<le> rebased cum s e \<and> (\<forall>i. s \<le> i \<and> i < e \<longrightarrow> rebased cum s i < t)"
    using crossing_on_exact[OF ex assms] by (rule conjunct1)
next
  assume ex: "exact_on sub cum"
  show "\<forall>s i. s \<le> i \<and> i < length groups
            \<and> (s = 0 \<or> groups ! (s - 1) \<noteq> None \<and> groups ! (s - 1) \<noteq> groups ! s)
            \<and> (\<forall>j. s \<le> j \<and> j < i \<longrightarrow> rebased cum s j < t) \<and> t \<le> rebased cum s i
          \<longrightarrow> groups ! i \<noteq> None \<and> (\<forall>j. s \<le> j \<and> j \<le> i \<longrightarrow> groups ! j = groups ! i)
              \<and> (i + 1 < length groups \<longrightarrow> groups ! (i + 1) \<noteq> groups ! i)"
    using crossing_on_exact[OF ex assms] by (rule conjunct2)
qed

theorem threshold_crossing_witness:
  "exact_on minus64 [1, 2, 3]
   \<and> assign_loop_with minus64 (Some 2) (length [1, 2, 3 :: rat]) [1, 2, 3]
       = ([- 1, 0, 1], [Some 0, Some 0, None], 1, 2)
   \<and> 2 \<le> held minus64 (Some 2) [1, 2, 3] 1 \<and> held minus64 (Some 2) [1, 2, 3] 0 < 2
   \<and> 2 \<le> rebased [1, 2, 3] 0 1 \<and> rebased [1, 2, 3] 0 0 < 2
   \<and> rebased [1, 2, 3] 0 1 = 2 \<and> [Some (0::nat), Some 0, None] ! 1 \<noteq> None
   \<and> [Some (0::nat), Some 0, None] ! 2 \<noteq> [Some 0, Some 0, None] ! 1"
proof -
  note A = threshold_crossing[OF I3_loop, THEN conjunct1]
  note T = threshold_crossing[OF I3_loop, THEN conjunct2, THEN mp, OF I3_exact]
  have occ: "(0::nat) \<le> 1 \<and> 1 < length [Some (0::nat), Some 0, None]
      \<and> (\<forall>i<length [Some (0::nat), Some 0, None]. [Some 0, Some 0, None] ! i = Some 0 \<longleftrightarrow> 0 \<le> i \<and> i \<le> 1)"
    by (simp add: less_Suc_eq nth_Cons' numeral_3_eq_3)
  from A occ
  have "2 \<le> held minus64 (Some 2) [1, 2, 3] 1
      \<and> (\<forall>i. 0 \<le> i \<and> i < 1 \<longrightarrow> held minus64 (Some 2) [1, 2, 3] i < 2)"
    by blast
  then have hl: "2 \<le> held minus64 (Some 2) [1, 2, 3] 1 \<and> held minus64 (Some 2) [1, 2, 3] 0 < 2"
    by simp
  from T occ
  have a: "2 \<le> rebased [1, 2, 3] 0 1 \<and> (\<forall>i. 0 \<le> i \<and> i < 1 \<longrightarrow> rebased [1, 2, 3] 0 i < 2)"
    by blast
  have eq: "rebased [1, 2, 3] 0 1 = 2" by (simp add: rebased_def baseline_before_def)
  have pre: "(0::nat) \<le> 1 \<and> 1 < length [Some (0::nat), Some 0, None]
      \<and> ((0::nat) = 0 \<or> [Some (0::nat), Some 0, None] ! (0 - 1) \<noteq> None
            \<and> [Some (0::nat), Some 0, None] ! (0 - 1) \<noteq> [Some 0, Some 0, None] ! 0)
      \<and> (\<forall>j. 0 \<le> j \<and> j < 1 \<longrightarrow> rebased [1, 2, 3] 0 j < 2) \<and> 2 \<le> rebased [1, 2, 3] 0 1"
    using a by simp
  from T have "\<forall>s i. s \<le> i \<and> i < length [Some (0::nat), Some 0, None]
            \<and> (s = 0 \<or> [Some (0::nat), Some 0, None] ! (s - 1) \<noteq> None
                 \<and> [Some (0::nat), Some 0, None] ! (s - 1) \<noteq> [Some 0, Some 0, None] ! s)
            \<and> (\<forall>j. s \<le> j \<and> j < i \<longrightarrow> rebased [1, 2, 3] s j < 2) \<and> 2 \<le> rebased [1, 2, 3] s i
          \<longrightarrow> [Some (0::nat), Some 0, None] ! i \<noteq> None
              \<and> (\<forall>j. s \<le> j \<and> j \<le> i \<longrightarrow> [Some (0::nat), Some 0, None] ! j = [Some 0, Some 0, None] ! i)
              \<and> (i + 1 < length [Some (0::nat), Some 0, None]
                   \<longrightarrow> [Some (0::nat), Some 0, None] ! (i + 1) \<noteq> [Some 0, Some 0, None] ! i)"
    by (rule conjunct2)
  from this[rule_format, of 0 1] pre
  have b: "[Some (0::nat), Some 0, None] ! 1 \<noteq> None
     \<and> (1 + 1 < length [Some (0::nat), Some 0, None]
          \<longrightarrow> [Some (0::nat), Some 0, None] ! (1 + 1) \<noteq> [Some 0, Some 0, None] ! 1)"
    by blast
  show ?thesis using I3_exact I3_loop hl a eq b by simp
qed

text \<open>
  C3, as stated, fails on a float64 column: on the sample column, with the float64
  threshold nearest to 0.3, the loop ends with the groups 0, 1, 2, 2, 3. Group 2 is not
  the last one and spans the rows 2 and 3, yet the cumulative measure rebased at row 2
  reaches the threshold at row 2 already, where the float64 difference of the two
  cumulative sums is the exact one. The loop has subtracted twice from that row by then
  and finds 0.29999999999999993 there, below the threshold.
\<close>

theorem threshold_crossing_counterexample:
  "map fl64 C64 = C64 \<and> fl64 th64 = th64
   \<and> assign_loop_with minus64 (Some th64) (length C64) C64
       = ([- 4728779608739021 / 2251799813685248, - 3152519739159347 / 2251799813685248,
           - 2476979795053773 / 2251799813685248, - 9007199254740991 / 9007199254740992, 0],
          [Some 0, Some 1, Some 2, Some 2, Some 3], 4, 5)
   \<and> th64 \<le> rebased C64 2 2 \<and> minus64 (C64 ! 2) (C64 ! 1) = rebased C64 2 2
   \<and> held minus64 (Some th64) C64 2 = 2702159776422297 / 9007199254740992
   \<and> held minus64 (Some th64) C64 2 < th64"
proof -
  have a: "th64 \<le> rebased C64 2 2 \<and> minus64 (C64 ! 2) (C64 ! 1) = rebased C64 2 2"
    by (simp add: rebased_def baseline_before_def C64_def th64_def fl_eval)
  have b: "held minus64 (Some th64) C64 2 = 2702159776422297 / 9007199254740992"
    by (simp add: held_def state_at_def ge_th_def set_slice_def upt_rec fl_eval C64_def th64_def)
  have c: "held minus64 (Some th64) C64 2 < th64"
    unfolding b by (simp add: th64_def)
  show ?thesis using C64_float C64_loop a b c by simp
qed

text \<open>
  C4, as amended. With a fixed threshold, whatever the subtraction of the column, the
  column \<^verbatim>\<open>group\<close> that the loop ends with has one entry for each input row. A crossing
  is a row at which the test of the loop succeeds. \<open>ref_row\<close> ends as the row after the
  last crossing and \<open>group_id\<close> as the number of crossings. Every row up to and including
  the last crossing carries a group id, the number of crossings before it: the ids start
  at 0, never decrease from a row to a later one, grow by at most one from a row to the
  next, reach \<open>group_id - 1\<close> at the last crossing, and each id below \<open>group_id\<close> fills an
  interval of rows that ends at a crossing. Every row after the last crossing, and every
  row when there is no crossing, carries none (NaN). On a column on which the
  subtractions of the loop are exact, the crossings are where the cumulative measure,
  rebased at the start of the group, first reaches the threshold, and the rows after the
  last one stay below it.
\<close>

theorem group_assignment_shape:
  assumes "assign_loop_with sub (Some t) (length cum) cum = (col, groups, group_id, ref_row)"
  shows "length groups = length cum
    \<and> ref_row \<le> length cum
    \<and> (0 < ref_row \<longrightarrow> crosses sub (Some t) cum (ref_row - 1))
    \<and> (\<forall>k. ref_row \<le> k \<and> k < length cum \<longrightarrow> \<not> crosses sub (Some t) cum k)
    \<and> (\<forall>i<ref_row. groups ! i = Some (crossings sub (Some t) cum i))
    \<and> (\<forall>i. ref_row \<le> i \<and> i < length cum \<longrightarrow> groups ! i = None)
    \<and> group_id = crossings sub (Some t) cum (length cum)
    \<and> (0 < ref_row \<longrightarrow> groups ! 0 = Some 0 \<and> groups ! (ref_row - 1) = Some (group_id - 1))
    \<and> (\<forall>i j a b. i \<le> j \<and> j < length cum \<and> groups ! i = Some a \<and> groups ! j = Some b
          \<longrightarrow> a \<le> b)
    \<and> (\<forall>i b. i + 1 < length cum \<and> groups ! (i + 1) = Some b
          \<longrightarrow> groups ! i = Some b \<or> (0 < b \<and> groups ! i = Some (b - 1)))
    \<and> (\<forall>j<group_id. \<exists>s e. s \<le> e \<and> e < ref_row \<and> crosses sub (Some t) cum e
          \<and> (\<forall>i<length cum. groups ! i = Some j \<longleftrightarrow> s \<le> i \<and> i \<le> e))
    \<and> (exact_on sub cum
          \<longrightarrow> (\<forall>i. ref_row \<le> i \<and> i < length cum \<longrightarrow> rebased cum ref_row i < t)
              \<and> (\<forall>j<group_id. \<exists>s e. e < ref_row \<and> group_span t cum groups j s e))"
proof -
  let ?th = "Some t"
  have I: "length groups = length cum \<and> ref_row \<le> length cum
        \<and> group_id = crossings sub ?th cum (length cum)
        \<and> (0 < ref_row \<longrightarrow> crosses sub ?th cum (ref_row - 1))
        \<and> (\<forall>j. ref_row \<le> j \<and> j < length cum \<longrightarrow> \<not> crosses sub ?th cum j)
        \<and> (\<forall>i<ref_row. groups ! i = Some (crossings sub ?th cum i)
               \<and> crossings sub ?th cum i < group_id)
        \<and> (\<forall>i. ref_row \<le> i \<and> i < length cum \<longrightarrow> groups ! i = None)
        \<and> (\<forall>j<group_id. \<exists>s e. s \<le> e \<and> e < ref_row \<and> crosses sub ?th cum e
               \<and> (\<forall>i<length cum. groups ! i = Some j \<longleftrightarrow> s \<le> i \<and> i \<le> e))"
    using assign_loop_shape[OF assms] unfolding shape_inv_def prod.case .
  from I have len: "length groups = length cum" by (elim conjE)
  from I have rn: "ref_row \<le> length cum" by (elim conjE)
  from I have g: "group_id = crossings sub ?th cum (length cum)" by (elim conjE)
  from I have last: "0 < ref_row \<longrightarrow> crosses sub ?th cum (ref_row - 1)" by (elim conjE)
  from I have none: "\<forall>j. ref_row \<le> j \<and> j < length cum \<longrightarrow> \<not> crosses sub ?th cum j"
    by (elim conjE)
  from I have ids': "\<forall>i<ref_row. groups ! i = Some (crossings sub ?th cum i)
               \<and> crossings sub ?th cum i < group_id" by (elim conjE)
  from I have nan: "\<forall>i. ref_row \<le> i \<and> i < length cum \<longrightarrow> groups ! i = None" by (elim conjE)
  from I have spans: "\<forall>j<group_id. \<exists>s e. s \<le> e \<and> e < ref_row \<and> crosses sub ?th cum e
               \<and> (\<forall>i<length cum. groups ! i = Some j \<longleftrightarrow> s \<le> i \<and> i \<le> e)"
    by (elim conjE)
  have ids: "\<forall>i<ref_row. groups ! i = Some (crossings sub ?th cum i)" using ids' by blast
  have assigned: "i < ref_row" if "i < length cum" "groups ! i = Some a" for i a
  proof (rule ccontr)
    assume "\<not> i < ref_row"
    then have "groups ! i = None" using nan that(1) by simp
    then show False using that(2) by simp
  qed
  have ends: "0 < ref_row \<longrightarrow> groups ! 0 = Some 0 \<and> groups ! (ref_row - 1) = Some (group_id - 1)"
  proof
    assume r: "0 < ref_row"
    then have "groups ! 0 = Some (crossings sub ?th cum 0)" using ids by blast
    then have a: "groups ! 0 = Some 0" by (simp add: crossings_0)
    have "crosses sub ?th cum (ref_row - 1)" using last r by simp
    then have "crossings sub ?th cum (Suc (ref_row - 1)) = crossings sub ?th cum (ref_row - 1) + 1"
      using crossings_Suc[of sub ?th cum "ref_row - 1"] by simp
    moreover have "Suc (ref_row - 1) = ref_row" using r by simp
    ultimately have "crossings sub ?th cum ref_row = crossings sub ?th cum (ref_row - 1) + 1"
      by simp
    moreover have "crossings sub ?th cum (length cum) = crossings sub ?th cum ref_row"
      using crossings_none[OF rn none] .
    ultimately have "group_id - 1 = crossings sub ?th cum (ref_row - 1)" using g by simp
    moreover have "groups ! (ref_row - 1) = Some (crossings sub ?th cum (ref_row - 1))"
      using ids r by simp
    ultimately show "groups ! 0 = Some 0 \<and> groups ! (ref_row - 1) = Some (group_id - 1)"
      using a by simp
  qed
  have mono: "\<forall>i j a b. i \<le> j \<and> j < length cum \<and> groups ! i = Some a \<and> groups ! j = Some b
          \<longrightarrow> a \<le> b"
  proof (intro allI impI, elim conjE)
    fix i j a b
    assume h: "i \<le> j" "j < length cum" "groups ! i = Some a" "groups ! j = Some b"
    have j: "j < ref_row" using assigned[OF h(2,4)] .
    then have i: "i < ref_row" using h(1) by simp
    have "a = crossings sub ?th cum i" using ids i h(3) by simp
    moreover have "b = crossings sub ?th cum j" using ids j h(4) by simp
    ultimately show "a \<le> b" using crossings_mono[OF h(1)] by simp
  qed
  have step: "\<forall>i b. i + 1 < length cum \<and> groups ! (i + 1) = Some b
          \<longrightarrow> groups ! i = Some b \<or> (0 < b \<and> groups ! i = Some (b - 1))"
  proof (intro allI impI, elim conjE)
    fix i b
    assume h: "i + 1 < length cum" "groups ! (i + 1) = Some b"
    have j: "i + 1 < ref_row" using assigned[OF h] .
    then have i: "i < ref_row" by simp
    have b: "b = crossings sub ?th cum (Suc i)" using ids j h(2) by simp
    have a: "groups ! i = Some (crossings sub ?th cum i)" using ids i by blast
    show "groups ! i = Some b \<or> (0 < b \<and> groups ! i = Some (b - 1))"
      using a b by (simp add: crossings_Suc)
  qed
  have exact: "exact_on sub cum
          \<longrightarrow> (\<forall>i. ref_row \<le> i \<and> i < length cum \<longrightarrow> rebased cum ref_row i < t)
              \<and> (\<forall>j<group_id. \<exists>s e. e < ref_row \<and> group_span t cum groups j s e)"
  proof
    assume ex: "exact_on sub cum"
    have loop: "assign_loop (Some t) (length cum) cum = (col, groups, group_id, ref_row)"
      using assign_loop_with_exact[OF ex, of t] assms by simp
    note facts = groups_of_spans[OF loop]
    show "(\<forall>i. ref_row \<le> i \<and> i < length cum \<longrightarrow> rebased cum ref_row i < t)
              \<and> (\<forall>j<group_id. \<exists>s e. e < ref_row \<and> group_span t cum groups j s e)"
      using facts(5) facts(6) by (rule conjI)
  qed
  show ?thesis
    using len rn last none ids nan g ends mono step spans exact by (intro conjI)
qed

theorem group_assignment_shape_witness:
  "assign_loop_with minus64 (Some 2) (length [1, 2, 3 :: rat]) [1, 2, 3]
       = ([- 1, 0, 1], [Some 0, Some 0, None], 1, 2)
   \<and> crosses minus64 (Some 2) [1, 2, 3] 1 \<and> \<not> crosses minus64 (Some 2) [1, 2, 3] 2
   \<and> crossings minus64 (Some 2) [1, 2, 3] 0 = 0 \<and> crossings minus64 (Some 2) [1, 2, 3] 1 = 0
   \<and> crossings minus64 (Some 2) [1, 2, 3] 3 = 1
   \<and> exact_on minus64 [1, 2, 3] \<and> rebased [1, 2, 3] 2 2 < 2"
proof -
  note T = group_assignment_shape[OF I3_loop]
  from T have "exact_on minus64 [1, 2, 3]
      \<longrightarrow> (\<forall>i. 2 \<le> i \<and> i < length [1, 2, 3 :: rat] \<longrightarrow> rebased [1, 2, 3] 2 i < 2)
          \<and> (\<forall>j<1. \<exists>s e. e < 2 \<and> group_span 2 [1, 2, 3] [Some 0, Some 0, None] j s e)"
    by (elim conjE)
  then have "\<forall>i. 2 \<le> i \<and> i < length [1, 2, 3 :: rat] \<longrightarrow> rebased [1, 2, 3] 2 i < 2"
    using I3_exact by blast
  then have e: "rebased [1, 2, 3] 2 2 < 2" by simp
  from T have "0 < (2::nat) \<longrightarrow> crosses minus64 (Some 2) [1, 2, 3] (2 - 1)" by (elim conjE)
  then have a: "crosses minus64 (Some 2) [1, 2, 3] 1" by simp
  from T have "\<forall>k. 2 \<le> k \<and> k < length [1, 2, 3 :: rat] \<longrightarrow> \<not> crosses minus64 (Some 2) [1, 2, 3] k"
    by (elim conjE)
  then have b: "\<not> crosses minus64 (Some 2) [1, 2, 3] 2" by simp
  from T have c: "\<forall>i<2. [Some (0::nat), Some 0, None] ! i = Some (crossings minus64 (Some 2) [1, 2, 3] i)"
    by (elim conjE)
  from c[rule_format, of 0] have c0: "crossings minus64 (Some 2) [1, 2, 3] 0 = 0" by simp
  from c[rule_format, of 1] have c1: "crossings minus64 (Some 2) [1, 2, 3] 1 = 0" by simp
  have l3: "length [1, 2, 3 :: rat] = 3" by simp
  from T have "1 = crossings minus64 (Some 2) [1, 2, 3] (length [1, 2, 3 :: rat])" by (elim conjE)
  then have d: "crossings minus64 (Some 2) [1, 2, 3] 3 = 1" by (simp only: l3)
  show ?thesis using I3_loop I3_exact a b c0 c1 d e by simp
qed

text \<open>
  C4, as stated, fails: with the cumulative ticks 1, 2, 3 and the threshold 2 the last row
  carries NaN, not an integer.
\<close>

theorem group_assignment_counterexample:
  "fst (assign_groups_threshold 0 (Fixed 2) ''ticks'' ''cum_ticks'' (- 2) (1 / 50) W3)
     = Inr [Some 0, Some 0, None]"
  by (simp add: W3_def frame_eval loop_eval)

text \<open>
  C8, as amended. On a column on which the subtractions of both passes are exact (with
  float64 numbers: every column of integers below \<open>2 ^ 52\<close> in magnitude), and with a fixed
  threshold, the pass of the source and the single forward pass of section 4.2 give every
  row that the source assigns the same group id; a row the source leaves at NaN (the rows
  after the final crossing) has, in the pass of section 4.2, the current group id, which
  is the number of groups the source has closed.
\<close>

theorem refines_spec_pass:
  assumes "exact_on sub cum"
    and "assign_loop_with sub (Some t) (length cum) cum = (col, groups, group_id, ref_row)"
  shows "spec_assign_groups_with sub cum t
           = map (\<lambda>x. case x of None \<Rightarrow> group_id | Some j \<Rightarrow> j) groups
    \<and> (\<forall>i<ref_row. groups ! i = Some (spec_assign_groups_with sub cum t ! i))
    \<and> (\<forall>i. ref_row \<le> i \<and> i < length cum
          \<longrightarrow> groups ! i = None \<and> spec_assign_groups_with sub cum t ! i = group_id)"
proof -
  have loop: "assign_loop (Some t) (length cum) cum = (col, groups, group_id, ref_row)"
    using assign_loop_with_exact[OF assms(1), of t] assms(2) by simp
  note facts = groups_of_spans[OF loop]
  have eq: "spec_assign_groups_with sub cum t
           = map (\<lambda>x. case x of None \<Rightarrow> group_id | Some j \<Rightarrow> j) groups"
    using spec_with_exact[OF assms(1), of t] spec_assign_groups_eq[OF loop] by simp
  have a: "\<forall>i<ref_row. groups ! i = Some (spec_assign_groups_with sub cum t ! i)"
  proof (intro allI impI)
    fix i assume i: "i < ref_row"
    then obtain j where j: "groups ! i = Some j" using facts(4) by blast
    have "i < length groups" using i facts(1,2) by simp
    then have "spec_assign_groups_with sub cum t ! i = j" unfolding eq using j by simp
    then show "groups ! i = Some (spec_assign_groups_with sub cum t ! i)" using j by simp
  qed
  have b: "\<forall>i. ref_row \<le> i \<and> i < length cum
          \<longrightarrow> groups ! i = None \<and> spec_assign_groups_with sub cum t ! i = group_id"
  proof (intro allI impI)
    fix i assume i: "ref_row \<le> i \<and> i < length cum"
    then have n: "groups ! i = None" using facts(3) by blast
    have "i < length groups" using i facts(1) by simp
    then have "spec_assign_groups_with sub cum t ! i = group_id" unfolding eq using n by simp
    then show "groups ! i = None \<and> spec_assign_groups_with sub cum t ! i = group_id"
      using n by simp
  qed
  show ?thesis using eq a b by (intro conjI)
qed

theorem refines_spec_pass_witness:
  "exact_on minus64 [1, 2, 3]
   \<and> assign_loop_with minus64 (Some 2) (length [1, 2, 3 :: rat]) [1, 2, 3]
       = ([- 1, 0, 1], [Some 0, Some 0, None], 1, 2)
   \<and> spec_assign_groups_with minus64 [1, 2, 3] 2 = [0, 0, 1]"
proof -
  have "spec_assign_groups_with minus64 [1, 2, 3] 2
      = map (\<lambda>x. case x of None \<Rightarrow> 1 | Some j \<Rightarrow> j) [Some 0, Some 0, None]"
    using refines_spec_pass[OF I3_exact I3_loop] by (rule conjunct1)
  then have "spec_assign_groups_with minus64 [1, 2, 3] 2 = [0, 0, 1]" by simp
  then show ?thesis using I3_exact I3_loop by simp
qed

text \<open>
  C8, as stated, fails twice. With the cumulative ticks 1, 2, 3 and the threshold 2 the
  source leaves the last row at NaN and the pass of section 4.2 gives it the group id 1.
  And on the float64 sample column, with the float64 threshold nearest to 0.3, the two
  passes differ on a row that the source assigns: the source ends with the groups 0, 1,
  2, 2, 3, the pass of section 4.2 with 0, 1, 2, 3, 3.
\<close>

theorem refines_spec_pass_counterexample:
  "fst (snd (assign_loop_with minus64 (Some 2) (length [1, 2, 3 :: rat]) [1, 2, 3]))
     = [Some 0, Some 0, None]
   \<and> spec_assign_groups_with minus64 [1, 2, 3] 2 = [0, 0, 1]
   \<and> fst (snd (assign_loop_with minus64 (Some th64) (length C64) C64))
     = [Some 0, Some 1, Some 2, Some 2, Some 3]
   \<and> spec_assign_groups_with minus64 C64 th64 = [0, 1, 2, 3, 3]"
proof -
  have a: "spec_assign_groups_with minus64 [1, 2, 3] 2 = [0, 0, 1]"
    by (simp add: spec64_eval)
  have b: "spec_assign_groups_with minus64 C64 th64 = [0, 1, 2, 3, 3]"
    by (simp add: spec64_eval C64_def th64_def)
  have c: "fst (snd (assign_loop_with minus64 (Some 2) (length [1, 2, 3 :: rat]) [1, 2, 3]))
     = [Some 0, Some 0, None]"
    by (simp only: I3_loop fst_conv snd_conv)
  have d: "fst (snd (assign_loop_with minus64 (Some th64) (length C64) C64))
     = [Some 0, Some 1, Some 2, Some 2, Some 3]"
    by (simp only: C64_loop fst_conv snd_conv)
  show ?thesis using a b c d by (intro conjI)
qed

text \<open>
  C2, as amended. For the five rows with the prices 10, 11, 9, 12, 10 and the volumes 1, 1,
  1, 1, 1, whatever their time stamps, tick bars with the fixed threshold 2 give the group
  assignment 0, 0, 1, 1, NaN and two bars: open 10, high 11, low 10, close 11, ticks 2,
  volume 2, and open 9, high 12, low 9, close 12, ticks 2, volume 2. The fifth row is in no
  bar.
\<close>

theorem five_rows_two_bars:
  "fst (sample_bar 0 ''tick'' (Fixed 2) ''date_time'' ''price'' ''volume'' rounding auto_ratio
         \<lparr>heap = [[(''date_time'', [d0, d1, d2, d3, d4]), (''price'', [10, 11, 9, 12, 10]),
                   (''volume'', [1, 1, 1, 1, 1])]],
          stdout = out\<rparr>)
     = Inr [\<lparr>bar_date_time = d1, bar_open = 10, bar_high = 11, bar_low = 10, bar_close = 11,
             bar_ticks = 2, bar_volume = 2, bar_dollar = 21\<rparr>,
            \<lparr>bar_date_time = d3, bar_open = 9, bar_high = 12, bar_low = 9, bar_close = 12,
             bar_ticks = 2, bar_volume = 2, bar_dollar = 21\<rparr>]
   \<and> assign_loop (Some 2) 5 (cumsum [1, 1, 1, 1, 1])
       = ([- 3, - 2, - 1, 0, 1], [Some 0, Some 0, Some 1, Some 1, None], 2, 4)"
  by (simp add: frame_eval loop_eval sample_eval)

text \<open>
  C2, as stated, fails: the sampler returns two bars for the five rows, not three.
\<close>

theorem five_rows_counterexample:
  "fst (sample_bar 0 ''tick'' (Fixed 2) ''date_time'' ''price'' ''volume'' (- 2) (1 / 50) W5)
     = Inr [\<lparr>bar_date_time = 1, bar_open = 10, bar_high = 11, bar_low = 10, bar_close = 11,
             bar_ticks = 2, bar_volume = 2, bar_dollar = 21\<rparr>,
            \<lparr>bar_date_time = 3, bar_open = 9, bar_high = 12, bar_low = 9, bar_close = 12,
             bar_ticks = 2, bar_volume = 2, bar_dollar = 21\<rparr>]"
  by (simp add: W5_def frame_eval loop_eval sample_eval)




text \<open>
  C10. For tick bars with the fixed threshold \<open>T\<close>, a positive integer, the sampler
  returns bars that each count exactly \<open>T\<close> ticks, and as many of them as \<open>T\<close> goes into
  the number of rows: the rows left over after the final crossing are in no bar.
\<close>

theorem tick_bars_complete:
  assumes "df < length (heap w)" and "valid_table (heap w ! df)" and "0 < T"
  shows "\<exists>bars.
      fst (sample_bar df ''tick'' (Fixed (of_nat T)) ''date_time'' ''price'' ''volume'' rounding auto_ratio w)
        = Inr bars
      \<and> (\<forall>b\<in>set bars. bar_ticks b = of_nat T)
      \<and> length bars = nrows (heap w ! df) div T"
proof -
  let ?fr = "heap w ! df"
  let ?n = "nrows ?fr"
  from assms(2) have c: "''price'' \<in> set (columns ?fr)" "''volume'' \<in> set (columns ?fr)"
    and wf: "wf_frame ?fr"
    by (simp_all add: valid_table_def)
  from get_col_in_columns[OF c(1)] obtain price where price: "get_col ?fr ''price'' = Inr price" ..
  from get_col_in_columns[OF c(2)] obtain vol where vol: "get_col ?fr ''volume'' = Inr vol" ..
  have lp: "length price = ?n" using wf_frame_length[OF wf price] by simp
  have m: "measure_of ''tick'' price vol = replicate ?n 1" by (simp add: measure_of_def lp)
  obtain col gs g r where
    loop0: "assign_loop (Some (of_nat T)) ?n (cumsum (measure_of ''tick'' price vol)) = (col, gs, g, r)"
    by (cases "assign_loop (Some (of_nat T)) ?n (cumsum (measure_of ''tick'' price vol))") auto
  from sample_bar_loop[OF assms(1,2) tick_in_types price vol loop0, of rounding auto_ratio]
  obtain bars where
    res: "fst (sample_bar df ''tick'' (Fixed (of_nat T)) ''date_time'' ''price'' ''volume'' rounding auto_ratio w)
       = Inr bars"
    and nb: "length bars = g"
    and ticks: "map bar_ticks bars = map (\<lambda>k. of_nat (length (group_rows gs k))) [0..<g]"
    and loop: "assign_loop (Some (of_nat T)) (length (cumsum (replicate ?n 1)))
       (cumsum (replicate ?n 1)) = (col, gs, g, r)"
    unfolding m by blast
  note facts = groups_of_spans[OF loop]
  have each: "length (group_rows gs k) = T" if "k < g" for k
  proof -
    from facts(6) that obtain s e where sp: "group_span (of_nat T) (cumsum (replicate ?n 1)) gs k s e"
      by blast
    then have se: "s \<le> e" and en: "e < ?n"
      and cross: "of_nat T \<le> rebased (cumsum (replicate ?n 1)) s e"
      and below: "\<forall>i. s \<le> i \<and> i < e \<longrightarrow> rebased (cumsum (replicate ?n 1)) s i < of_nat T"
      by (simp_all add: group_span_def)
    have "of_nat T \<le> (of_nat (Suc e - s) :: rat)"
      using cross unfolding rebased_cumsum_ticks[OF se en] .
    then have lo: "T \<le> Suc e - s" by (simp only: of_nat_le_iff)
    have hi: "Suc e - s \<le> T"
    proof (cases "s < e")
      case True
      then have i: "s \<le> e - 1" "e - 1 < e" "e - 1 < ?n" using en by simp_all
      have "rebased (cumsum (replicate ?n 1)) s (e - 1) < of_nat T"
        using below i(1,2) by blast
      then have "(of_nat (Suc (e - 1) - s) :: rat) < of_nat T"
        unfolding rebased_cumsum_ticks[OF i(1,3)] .
      then have "Suc (e - 1) - s < T" by (simp only: of_nat_less_iff)
      then show ?thesis using True by simp
    next
      case False
      then show ?thesis using se assms(3) by simp
    qed
    have "group_rows gs k = [s..<Suc e]"
      using group_rows_span[OF sp] facts(1) by simp
    then have "length (group_rows gs k) = Suc e - s"
      by (simp only: length_upt)
    then show ?thesis using lo hi by simp
  qed
  have all: "\<forall>b\<in>set bars. bar_ticks b = of_nat T"
  proof
    fix b assume "b \<in> set bars"
    then have "bar_ticks b \<in> set (map bar_ticks bars)" by simp
    then obtain k where "k < g" "bar_ticks b = of_nat (length (group_rows gs k))"
      unfolding ticks by auto
    then show "bar_ticks b = of_nat T" using each by simp
  qed
  have "sum_list (map (\<lambda>k. length (group_rows gs k)) [0..<g]) = r"
    by (rule group_rows_sum[OF loop])
  moreover have "map (\<lambda>k. length (group_rows gs k)) [0..<g] = map (\<lambda>k. T) [0..<g]"
    by (rule map_cong) (use each in auto)
  ultimately have r: "r = g * T" by (simp add: sum_list_triv)
  have rn: "r \<le> ?n" using facts(2) by simp
  have rest: "?n - r < T"
  proof (cases "r < ?n")
    case True
    then have i: "r \<le> ?n - 1" "?n - 1 < ?n" by simp_all
    have "rebased (cumsum (replicate ?n 1)) r (?n - 1) < of_nat T"
      using facts(5) i by simp
    then have "(of_nat (Suc (?n - 1) - r) :: rat) < of_nat T"
      unfolding rebased_cumsum_ticks[OF i] .
    then have "Suc (?n - 1) - r < T" by (simp only: of_nat_less_iff)
    then show ?thesis using True by simp
  next
    case False
    then show ?thesis using assms(3) by simp
  qed
  have "?n div T = g"
  proof (rule div_nat_eqI)
    show "T * g \<le> ?n" using r rn by (simp add: mult.commute)
    show "?n < T * Suc g" using r rn rest by (simp add: mult.commute)
  qed
  then show ?thesis using res all nb by auto
qed

theorem tick_bars_complete_witness:
  "0 < length (heap T3) \<and> valid_table (heap T3 ! 0) \<and> (0::nat) < 2
   \<and> (\<exists>bars. fst (sample_bar 0 ''tick'' (Fixed (of_nat 2)) ''date_time'' ''price'' ''volume'' (- 2) (1 / 50) T3)
                 = Inr bars
               \<and> list_all (\<lambda>b. bar_ticks b = of_nat 2) bars
               \<and> length bars = nrows (heap T3 ! 0) div 2)"
proof -
  have "(0::nat) < 2" by simp
  from tick_bars_complete[OF T3_valid(1,2) this, of "- 2" "1 / 50"]
  have "\<exists>bars. fst (sample_bar 0 ''tick'' (Fixed (of_nat 2)) ''date_time'' ''price'' ''volume'' (- 2) (1 / 50) T3)
                 = Inr bars
               \<and> list_all (\<lambda>b. bar_ticks b = of_nat 2) bars
               \<and> length bars = nrows (heap T3 ! 0) div 2"
    by (simp add: list_all_iff)
  then show ?thesis using T3_valid(1,2) by simp
qed

text \<open>
  C5, as amended. No bar type checks a fixed threshold or rejects an empty table: the
  sampler returns bars without error; for a table with no row it returns no bar, and for a
  threshold that is 0 or negative, the measure being nowhere negative, every row closes a
  bar of its own.
\<close>

theorem no_threshold_or_emptiness_check:
  assumes "df < length (heap w)" and "valid_table (heap w ! df)"
    and "bar_type \<in> set POSSIBLE_BAR_TYPES"
    and "get_col (heap w ! df) ''price'' = Inr price"
    and "get_col (heap w ! df) ''volume'' = Inr vol"
  shows "\<exists>bars.
      fst (sample_bar df bar_type (Fixed t) ''date_time'' ''price'' ''volume'' rounding auto_ratio w)
        = Inr bars
      \<and> (nrows (heap w ! df) = 0 \<longrightarrow> bars = [])
      \<and> (t \<le> 0 \<and> (\<forall>x\<in>set (measure_of bar_type price vol). 0 \<le> x)
            \<longrightarrow> length bars = nrows (heap w ! df))"
proof -
  let ?n = "nrows (heap w ! df)"
  let ?m = "measure_of bar_type price vol"
  obtain col gs g r where
    loop0: "assign_loop (Some t) ?n (cumsum ?m) = (col, gs, g, r)"
    by (cases "assign_loop (Some t) ?n (cumsum ?m)") auto
  from sample_bar_loop[OF assms loop0, of rounding auto_ratio]
  obtain bars where
    res: "fst (sample_bar df bar_type (Fixed t) ''date_time'' ''price'' ''volume'' rounding auto_ratio w)
       = Inr bars"
    and nb: "length bars = g"
    and lc: "length (cumsum ?m) = ?n"
    and loop: "assign_loop (Some t) (length (cumsum ?m)) (cumsum ?m) = (col, gs, g, r)"
    by blast
  note facts = groups_of_spans[OF loop]
  have lm: "length ?m = ?n" using lc by simp
  have empty: "?n = 0 \<longrightarrow> bars = []"
  proof
    assume "?n = 0"
    then have "r = 0" using facts(2) lc by simp
    then have "g = 0" using facts(8) by simp
    then show "bars = []" using nb by simp
  qed
  have all: "length bars = ?n" if t: "t \<le> 0" and pos: "\<forall>x\<in>set ?m. 0 \<le> x"
  proof -
    have nonneg: "0 \<le> rebased (cumsum ?m) s i" if "s \<le> i" "i < ?n" for s i
      using rebased_cumsum_nonneg[OF that(1) _ pos] that(2) lm by simp
    have "r = ?n"
    proof (rule ccontr)
      assume "r \<noteq> ?n"
      then have "r < ?n" using facts(2) lc by simp
      then have "rebased (cumsum ?m) r r < t" using facts(5) lc by simp
      then show False using nonneg[of r r] \<open>r < ?n\<close> t by simp
    qed
    have each: "length (group_rows gs k) = 1" if "k < g" for k
    proof -
      from facts(6) that obtain s e where sp: "group_span t (cumsum ?m) gs k s e" by blast
      then have se: "s \<le> e" and en: "e < ?n"
        and below: "\<forall>i. s \<le> i \<and> i < e \<longrightarrow> rebased (cumsum ?m) s i < t"
        using lc by (simp_all add: group_span_def)
      have "s = e"
      proof (rule ccontr)
        assume "s \<noteq> e"
        then have "s < e" using se by simp
        then have "rebased (cumsum ?m) s s < t" using below by simp
        then show False using nonneg[of s s] \<open>s < e\<close> en t by simp
      qed
      then show ?thesis using group_rows_span[OF sp] facts(1) by simp
    qed
    have "sum_list (map (\<lambda>k. length (group_rows gs k)) [0..<g]) = r"
      by (rule group_rows_sum[OF loop])
    moreover have "map (\<lambda>k. length (group_rows gs k)) [0..<g] = map (\<lambda>k. 1) [0..<g]"
      by (rule map_cong) (use each in auto)
    ultimately have "r = g" by (simp add: sum_list_triv)
    then show ?thesis using nb \<open>r = ?n\<close> by simp
  qed
  have all': "t \<le> 0 \<and> (\<forall>x\<in>set ?m. 0 \<le> x) \<longrightarrow> length bars = ?n"
    using all by simp
  show ?thesis
    by (rule exI[of _ bars]) (intro conjI res empty all')
qed

theorem no_threshold_or_emptiness_check_witness:
  "0 < length (heap T3) \<and> valid_table (heap T3 ! 0) \<and> ''tick'' \<in> set POSSIBLE_BAR_TYPES
   \<and> get_col (heap T3 ! 0) ''price'' = Inr [10, 11, 9]
   \<and> get_col (heap T3 ! 0) ''volume'' = Inr [1, 1, 1]
   \<and> (0::rat) \<le> 0 \<and> list_all (\<lambda>x. 0 \<le> x) (measure_of ''tick'' [10, 11, 9] [1, 1, 1])
   \<and> (\<exists>bars. fst (sample_bar 0 ''tick'' (Fixed 0) ''date_time'' ''price'' ''volume'' (- 2) (1 / 50) T3)
                 = Inr bars
               \<and> length bars = nrows (heap T3 ! 0))
   \<and> 0 < length (heap E0) \<and> valid_table (heap E0 ! 0)
   \<and> get_col (heap E0 ! 0) ''price'' = Inr []
   \<and> get_col (heap E0 ! 0) ''volume'' = Inr []
   \<and> nrows (heap E0 ! 0) = 0
   \<and> fst (sample_bar 0 ''tick'' (Fixed 2) ''date_time'' ''price'' ''volume'' (- 2) (1 / 50) E0) = Inr []"
proof -
  have pos: "\<forall>x\<in>set (measure_of ''tick'' [10, 11, 9] [1, 1, 1]). (0::rat) \<le> x"
    by (simp add: measure_of_def)
  from no_threshold_or_emptiness_check[OF T3_valid(1,2) tick_in_types T3_valid(3,4), of 0 "- 2" "1 / 50"] pos
  have a: "\<exists>bars. fst (sample_bar 0 ''tick'' (Fixed 0) ''date_time'' ''price'' ''volume'' (- 2) (1 / 50) T3)
                 = Inr bars
               \<and> length bars = nrows (heap T3 ! 0)"
    by auto
  from no_threshold_or_emptiness_check[OF E0_valid(1,2) tick_in_types E0_valid(3,4), of 2 "- 2" "1 / 50"]
    E0_valid(5)
  have b: "fst (sample_bar 0 ''tick'' (Fixed 2) ''date_time'' ''price'' ''volume'' (- 2) (1 / 50) E0) = Inr []"
    by auto
  show ?thesis
    using a b T3_valid(1-4) E0_valid tick_in_types pos by (simp add: list_all_iff)
qed

text \<open>
  C5, as stated, fails: the threshold 0 gives three bars for three rows and the table with
  no row gives the empty result, neither with an error.
\<close>

theorem rejection_counterexample:
  "fst (sample_bar 0 ''tick'' (Fixed 0) ''date_time'' ''price'' ''volume'' (- 2) (1 / 50) T3)
     = Inr [\<lparr>bar_date_time = 0, bar_open = 10, bar_high = 10, bar_low = 10, bar_close = 10,
             bar_ticks = 1, bar_volume = 1, bar_dollar = 10\<rparr>,
            \<lparr>bar_date_time = 1, bar_open = 11, bar_high = 11, bar_low = 11, bar_close = 11,
             bar_ticks = 1, bar_volume = 1, bar_dollar = 11\<rparr>,
            \<lparr>bar_date_time = 2, bar_open = 9, bar_high = 9, bar_low = 9, bar_close = 9,
             bar_ticks = 1, bar_volume = 1, bar_dollar = 9\<rparr>]
   \<and> fst (sample_bar 0 ''tick'' (Fixed 2) ''date_time'' ''price'' ''volume'' (- 2) (1 / 50) E0) = Inr []"
  by (simp add: T3_def E0_def frame_eval loop_eval sample_eval)

text \<open>
  C9. Whatever its arguments, a call of \<^verbatim>\<open>sample_bar\<close> leaves every object that existed
  before it as it was, the caller's table among them: the columns it derives and the
  rebasing of the loop are written to objects that the call itself creates. Apart from
  that it prints at most one value when the threshold is \<^verbatim>\<open>'auto'\<close> and nothing when the
  threshold is fixed.
\<close>

theorem sample_bar_frame:
  "take (length (heap w))
     (heap (snd (sample_bar df bar_type threshold datetime_col price_col vol_col rounding
                   auto_ratio w))) = heap w
   \<and> (\<exists>out. length out \<le> 1
         \<and> stdout (snd (sample_bar df bar_type threshold datetime_col price_col vol_col rounding
                          auto_ratio w))
             = stdout w @ (case threshold of Auto \<Rightarrow> out | Fixed t \<Rightarrow> []))"
proof -
  obtain res w' where
    s: "sample_bar df bar_type threshold datetime_col price_col vol_col rounding auto_ratio w = (res, w')"
    by (cases "sample_bar df bar_type threshold datetime_col price_col vol_col rounding auto_ratio w") auto
  show ?thesis
    using sample_bar_effects[OF s] s by (simp add: emitted_def)
qed

text \<open>
  C6, as amended. With the threshold \<^verbatim>\<open>'auto'\<close> on a table that has a row (and no
  column \<^verbatim>\<open>group\<close> yet), the resolved
  threshold is the sum of the measure column divided by the number of business days from
  the first day of the input to the last (a business day with no row counts, with the sum
  0), times \<^verbatim>\<open>auto_ratio\<close>, rounded to the multiple of ten to the power minus
  \<^verbatim>\<open>rounding\<close> that is nearest (at most half of that power away). The resolution happens
  once and before the pass: the value is printed once, and the pass gives the groups of
  the same call with that value as a fixed threshold.
\<close>

theorem auto_threshold_resolution:
  assumes "df < length (heap w)" and "wf_frame (heap w ! df)"
    and "get_col (heap w ! df) ''date_time'' = Inr dt"
    and "get_col (heap w ! df) tgt_col = Inr xs"
    and "get_col (heap w ! df) cum_col = Inr cum"
    and "dt \<noteq> []"
    and "''group'' \<notin> set (columns (heap w ! df))"
  shows
    "(let days = map business_day dt;
          pre = sum_list xs / of_nat (length (business_days (first_day days) (last_day days)))
                  * auto_ratio;
          th = np_round pre rounding
      in get_auto_threshold (heap w ! df) tgt_col rounding auto_ratio = Inr (Some th)
         \<and> \<bar>th - pre\<bar> \<le> 1 / (2 * pow10 rounding)
         \<and> th * pow10 rounding = of_int (rint (pre * pow10 rounding))
         \<and> fst (assign_groups_threshold df Auto tgt_col cum_col rounding auto_ratio w)
             = fst (assign_groups_threshold df (Fixed th) tgt_col cum_col rounding auto_ratio w)
         \<and> stdout (snd (assign_groups_threshold df Auto tgt_col cum_col rounding auto_ratio w))
             = stdout w @ [Some th])"
proof -
  let ?days = "map business_day dt"
  let ?pre = "sum_list xs / of_nat (length (business_days (first_day ?days) (last_day ?days)))
                * auto_ratio"
  let ?th = "np_round ?pre rounding"
  have g: "get_auto_threshold (heap w ! df) tgt_col rounding auto_ratio = Inr (Some ?th)"
    using mean_no_ticks_eq[OF assms(2,3,4,6)] by (simp add: get_auto_threshold_def)
  have near: "\<bar>?th - ?pre\<bar> \<le> 1 / (2 * pow10 rounding)" by (rule np_round_near)
  have mult: "?th * pow10 rounding = of_int (rint (?pre * pow10 rounding))"
    using pow10_pos[of rounding] by (simp add: np_round_def)
  note a = assign_groups_auto[OF assms(1,2,5) g]
  have f: "fst (assign_groups_threshold df (Fixed ?th) tgt_col cum_col rounding auto_ratio w)
      = Inr (groups_of (Some ?th) cum)"
    by (rule assign_groups_fixed[OF assms(1,2,5)])
  show ?thesis
    unfolding Let_def using g near mult a f by simp
qed

theorem auto_threshold_resolution_witness:
  "0 < length (heap W3) \<and> wf_frame (heap W3 ! 0)
   \<and> get_col (heap W3 ! 0) ''date_time'' = Inr [0, 1, 2]
   \<and> get_col (heap W3 ! 0) ''ticks'' = Inr [1, 1, 1]
   \<and> get_col (heap W3 ! 0) ''cum_ticks'' = Inr [1, 2, 3]
   \<and> [0, 1, 2 :: rat] \<noteq> []
   \<and> ''group'' \<notin> set (columns (heap W3 ! 0))
   \<and> get_auto_threshold (heap W3 ! 0) ''ticks'' 0 2 = Inr (Some 2)
   \<and> fst (assign_groups_threshold 0 Auto ''ticks'' ''cum_ticks'' 0 2 W3)
       = fst (assign_groups_threshold 0 (Fixed 2) ''ticks'' ''cum_ticks'' 0 2 W3)
   \<and> stdout (snd (assign_groups_threshold 0 Auto ''ticks'' ''cum_ticks'' 0 2 W3)) = stdout W3 @ [Some 2]"
proof -
  have ne: "[0, 1, 2 :: rat] \<noteq> []" by simp
  have th: "np_round (sum_list [1, 1, 1] / of_nat (length (business_days
              (first_day (map business_day [0, 1, 2])) (last_day (map business_day [0, 1, 2])))) * 2) 0
            = 2"
    by (simp add: auto_eval)
  from auto_threshold_resolution[OF W3_cols ne W3_no_group, of 2 0]
  have "get_auto_threshold (heap W3 ! 0) ''ticks'' 0 2 = Inr (Some 2)
   \<and> fst (assign_groups_threshold 0 Auto ''ticks'' ''cum_ticks'' 0 2 W3)
       = fst (assign_groups_threshold 0 (Fixed 2) ''ticks'' ''cum_ticks'' 0 2 W3)
   \<and> stdout (snd (assign_groups_threshold 0 Auto ''ticks'' ''cum_ticks'' 0 2 W3)) = stdout W3 @ [Some 2]"
    unfolding Let_def th by simp
  then show ?thesis using W3_cols ne W3_no_group by simp
qed

text \<open>
  C6, as stated, fails: for 300 on a Monday and 300 on the Wednesday after it, with the
  ratio 1 and the rounding -2, the source resolves 200 (three business days), and the mean
  over the two days that have a row gives 300.
\<close>

theorem auto_threshold_days_counterexample:
  "get_auto_threshold G2 ''volume'' (- 2) 1 = Inr (Some 200)
   \<and> np_round (days_present_mean [0, 2] [300, 300] * 1) (- 2) = 300"
  by (simp add: G2_def days_present_mean_def frame_eval auto_eval)

text \<open>
  C7, as amended. For one table whose mean daily total \<open>m\<close> is not negative, a larger
  \<^verbatim>\<open>auto_ratio\<close> never gives a smaller resolved threshold; before the rounding the
  threshold \<open>m * auto_ratio\<close> grows strictly with the ratio when \<open>m\<close> is positive, and
  doubling the ratio doubles it.
\<close>

theorem auto_threshold_monotone:
  assumes "mean_no_ticks df tgt_col = Inr (Some m)" and "0 \<le> m" and "r1 \<le> r2"
  shows "get_auto_threshold df tgt_col rounding r1 = Inr (Some (np_round (m * r1) rounding))
    \<and> get_auto_threshold df tgt_col rounding r2 = Inr (Some (np_round (m * r2) rounding))
    \<and> np_round (m * r1) rounding \<le> np_round (m * r2) rounding
    \<and> (0 < m \<and> r1 < r2 \<longrightarrow> m * r1 < m * r2)
    \<and> m * (2 * r1) = 2 * (m * r1)"
proof -
  have "m * r1 \<le> m * r2" using assms(2,3) by (rule mult_left_mono[rotated])
  then have "np_round (m * r1) rounding \<le> np_round (m * r2) rounding"
    by (rule np_round_mono)
  then show ?thesis
    using assms(1) by (simp add: get_auto_threshold_def)
qed

theorem auto_threshold_monotone_witness:
  "mean_no_ticks (heap W3 ! 0) ''ticks'' = Inr (Some 1) \<and> (0::rat) \<le> 1 \<and> (1 / 50 :: rat) \<le> 1 / 25
   \<and> get_auto_threshold (heap W3 ! 0) ''ticks'' 2 (1 / 50) = Inr (Some (1 / 50))
   \<and> get_auto_threshold (heap W3 ! 0) ''ticks'' 2 (1 / 25) = Inr (Some (1 / 25))"
proof -
  have a: "(0::rat) \<le> 1" and b: "(1 / 50 :: rat) \<le> 1 / 25" by simp_all
  from auto_threshold_monotone[OF W3_mean a b, of 2]
  have "get_auto_threshold (heap W3 ! 0) ''ticks'' 2 (1 / 50) = Inr (Some (1 / 50))
      \<and> get_auto_threshold (heap W3 ! 0) ''ticks'' 2 (1 / 25) = Inr (Some (1 / 25))"
    by (simp add: np_round_def rint_def pow10_def Let_def floor_rat_numeral)
  then show ?thesis using W3_mean by simp
qed

text \<open>
  C7, as stated, fails: with the mean daily total 1 and the rounding -2 the ratios 1/50 and
  1/25 both resolve to 0.
\<close>

theorem auto_threshold_counterexample:
  "(1 / 50 :: rat) < 1 / 25
   \<and> get_auto_threshold (heap W3 ! 0) ''ticks'' (- 2) (1 / 50) = Inr (Some 0)
   \<and> get_auto_threshold (heap W3 ! 0) ''ticks'' (- 2) (1 / 25) = Inr (Some 0)"
  by (simp add: W3_def frame_eval auto_eval)

end
